theory Spec2Isabelle
  imports Complex_Main "HOL-Library.Stream" "HOL-Library.Multiset"
begin

section \<open>The random source and Python's list operations\<close>

text \<open>
  The program draws all its randomness from the module-level functions \<open>random()\<close> and
  \<open>randint(a, b)\<close> of Python's library. The library is modelled as an infinite stream
  of raw draws that every call consumes from the front:
  \<^item> \<open>random()\<close> returns a 53-bit fraction \<open>k / 2^53\<close>, a number in \<open>[0, 1)\<close>;
  \<^item> \<open>randint(a, b)\<close> is \<open>randrange(a, b + 1)\<close>, which raises \<open>ValueError\<close> on an empty
    range and otherwise returns \<open>a + int(random() * (b + 1 - a))\<close>.
  The product in \<open>randint\<close> is taken over the reals (the double product is not rounded
  before \<open>int\<close> truncates it); the product in \<open>evolve\<close> is the double product, see
  \<open>double_round\<close> below. The library computes \<open>randrange\<close> this way for ranges of fewer
  than \<open>2^53\<close> values; the program asks for 90 values or for as many as a gene or a
  population has elements.
\<close>

type_synonym rng = "nat stream"

datatype error = ValueError | IndexError | OverflowError

definition draw_value :: "nat \<Rightarrow> real" where
  "draw_value k = real (k mod 2 ^ 53) / 2 ^ 53"

definition random_py :: "rng \<Rightarrow> real \<times> rng" where
  "random_py g = (draw_value (shd g), stl g)"

definition randint :: "int \<Rightarrow> int \<Rightarrow> rng \<Rightarrow> error + int \<times> rng" where
  "randint a b g =
     (if b < a then Inl ValueError
      else (case random_py g of
              (u, g') \<Rightarrow> Inr (a + \<lfloor>u * real_of_int (b + 1 - a)\<rfloor>, g')))"

text \<open>
  \<open>xs[i]\<close> on a list or string: a negative index counts from the end, and an index
  out of range raises \<open>IndexError\<close>.
\<close>

definition getitem :: "'a list \<Rightarrow> int \<Rightarrow> error + 'a" where
  "getitem xs i =
     (let n = int (length xs); j = (if i < 0 then i + n else i)
      in if 0 \<le> j \<and> j < n then Inr (xs ! nat j) else Inl IndexError)"

definition setitem :: "'a list \<Rightarrow> int \<Rightarrow> 'a \<Rightarrow> error + 'a list" where
  "setitem xs i v =
     (let n = int (length xs); j = (if i < 0 then i + n else i)
      in if 0 \<le> j \<and> j < n then Inr (xs[nat j := v]) else Inl IndexError)"

text \<open>
  The slices \<open>xs[0:i]\<close> and \<open>xs[i:]\<close>: a negative bound counts from the end, and bounds
  are clamped to the sequence, so a slice never raises.
\<close>

definition slice_to :: "'a list \<Rightarrow> int \<Rightarrow> 'a list" where
  "slice_to xs i = take (nat (if i < 0 then i + int (length xs) else i)) xs"

definition slice_from :: "'a list \<Rightarrow> int \<Rightarrow> 'a list" where
  "slice_from xs i = drop (nat (if i < 0 then i + int (length xs) else i)) xs"

text \<open>
  \<open>ord\<close> and \<open>chr\<close> on the byte strings of Python 2. \<open>chr\<close> raises outside
  \<open>range(256)\<close>; the program calls it on \<open>randint(0, 89) + 32\<close> and on a remainder
  modulo 122 only.
\<close>

definition ord :: "char \<Rightarrow> int" where
  "ord c = of_char c"

definition chr :: "int \<Rightarrow> char" where
  "chr i = char_of i"

text \<open>
  \<open>round\<close> of Python 2 rounds half away from zero; \<open>int(round(x))\<close> is then exact.
\<close>

definition py_round :: "real \<Rightarrow> int" where
  "py_round x = (if 0 \<le> x then \<lfloor>x + 1 / 2\<rfloor> else \<lceil>x - 1 / 2\<rceil>)"

text \<open>
  Python's floats are doubles, and the product of two of them is the exact product
  rounded to the nearest double, a tie going to the double with the even significand.
  \<open>double_round\<close> is that rounding: with \<open>e\<close> the binary exponent of \<open>x\<close> (the search
  halves or doubles often enough for every finite double), the doubles around \<open>x\<close> are
  the multiples of \<open>2^(e - 52)\<close>, of \<open>2^-1074\<close> when \<open>x\<close> is subnormal. A result of
  magnitude \<open>2^1024\<close> or more stands for an infinity.
\<close>

fun binary_exponent_aux :: "nat \<Rightarrow> real \<Rightarrow> int \<Rightarrow> int" where
  "binary_exponent_aux 0 x e = e"
| "binary_exponent_aux (Suc n) x e =
     (if 2 \<le> x then binary_exponent_aux n (x / 2) (e + 1)
      else if x < 1 then binary_exponent_aux n (x * 2) (e - 1)
      else e)"

definition binary_exponent :: "real \<Rightarrow> int" where
  "binary_exponent x = binary_exponent_aux 2200 \<bar>x\<bar> 0"

definition round_half_even :: "real \<Rightarrow> int" where
  "round_half_even y =
     (let f = \<lfloor>y\<rfloor>; d = y - real_of_int f
      in if d < 1 / 2 then f else if 1 / 2 < d then f + 1 else if even f then f else f + 1)"

definition quantum :: "real \<Rightarrow> real" where
  "quantum x = 2 powi (max (binary_exponent x) (- 1022) - 52)"

definition double_round :: "real \<Rightarrow> real" where
  "double_round x = quantum x * real_of_int (round_half_even (x / quantum x))"

section \<open>Chromosome\<close>

record chromosome =
  gene :: string
  fitness :: int

definition target_gene :: string where
  "target_gene = ''Hello, world!''"

text \<open>\<open>_updateFitness\<close>: the loop over \<open>zip(gene, target)\<close> with its accumulator.\<close>

fun updateFitness_loop :: "(char \<times> char) list \<Rightarrow> int \<Rightarrow> int" where
  "updateFitness_loop [] acc = acc"
| "updateFitness_loop ((a, b) # ps) acc = updateFitness_loop ps (acc + \<bar>ord a - ord b\<bar>)"

definition updateFitness :: "string \<Rightarrow> int" where
  "updateFitness gn = updateFitness_loop (zip gn target_gene) 0"

text \<open>The constructor \<open>Chromosome(gene)\<close> stores the gene and its fitness.\<close>

definition Chromosome :: "string \<Rightarrow> chromosome" where
  "Chromosome gn = \<lparr>gene = gn, fitness = updateFitness gn\<rparr>"

text \<open>\<open>mate\<close>: one pivot from \<open>randint(0, len(self.gene) - 1)\<close>, two children.\<close>

definition mate :: "chromosome \<Rightarrow> chromosome \<Rightarrow> rng \<Rightarrow> error + (chromosome \<times> chromosome) \<times> rng" where
  "mate self other g =
     (case randint 0 (int (length (gene self)) - 1) g of
        Inl e \<Rightarrow> Inl e
      | Inr (pivot, g') \<Rightarrow>
          (let gene1 = slice_to (gene self) pivot @ slice_from (gene other) pivot;
               gene2 = slice_to (gene other) pivot @ slice_from (gene self) pivot
           in Inr ((Chromosome gene1, Chromosome gene2), g')))"

text \<open>
  \<open>mutate\<close>: the delta is drawn first, then the index; the character at the index is
  replaced by \<open>chr((ord(old) + delta) % 122)\<close>. A string is its list of characters, so
  \<open>list(self.gene)\<close> and \<open>''.join(gene)\<close> change nothing.
\<close>

definition mutate :: "chromosome \<Rightarrow> rng \<Rightarrow> error + chromosome \<times> rng" where
  "mutate self g =
     (case randint 0 89 g of
        Inl e \<Rightarrow> Inl e
      | Inr (r, g1) \<Rightarrow>
          (let delta = r + 32 in
           case randint 0 (int (length (gene self)) - 1) g1 of
             Inl e \<Rightarrow> Inl e
           | Inr (idx, g2) \<Rightarrow>
               (case getitem (gene self) idx of
                  Inl e \<Rightarrow> Inl e
                | Inr old \<Rightarrow>
                    (case setitem (gene self) idx (chr ((ord old + delta) mod 122)) of
                       Inl e \<Rightarrow> Inl e
                     | Inr gn \<Rightarrow> Inr (Chromosome gn, g2)))))"

text \<open>\<open>genRandom\<close>: one character \<open>chr(randint(0, 89) + 32)\<close> per position of the target.\<close>

fun genRandom_loop :: "nat \<Rightarrow> string \<Rightarrow> rng \<Rightarrow> error + string \<times> rng" where
  "genRandom_loop 0 gn g = Inr (gn, g)"
| "genRandom_loop (Suc n) gn g =
     (case randint 0 89 g of
        Inl e \<Rightarrow> Inl e
      | Inr (r, g') \<Rightarrow> genRandom_loop n (gn @ [chr (r + 32)]) g')"

definition genRandom :: "rng \<Rightarrow> error + chromosome \<times> rng" where
  "genRandom g =
     (case genRandom_loop (length target_gene) [] g of
        Inl e \<Rightarrow> Inl e
      | Inr (gn, g') \<Rightarrow> Inr (Chromosome gn, g'))"

section \<open>Population\<close>

text \<open>
  The object's fields \<open>_population\<close>, \<open>_elitism\<close>, \<open>_mutation\<close> and \<open>_crossover\<close>, under
  the names of their accessors. The rates are whatever finite doubles the caller
  passed.
\<close>

record population_state =
  population :: "chromosome list"
  elitism :: real
  mutation :: real
  crossover :: real

definition tournamentSize :: nat where
  "tournamentSize = 3"

text \<open>\<open>__init__\<close>: \<open>size\<close> random chromosomes (none for a size below 1), sorted by fitness.\<close>

fun init_loop :: "nat \<Rightarrow> chromosome list \<Rightarrow> rng \<Rightarrow> error + chromosome list \<times> rng" where
  "init_loop 0 buf g = Inr (buf, g)"
| "init_loop (Suc n) buf g =
     (case genRandom g of
        Inl e \<Rightarrow> Inl e
      | Inr (c, g') \<Rightarrow> init_loop n (buf @ [c]) g')"

definition Population_init :: "int \<Rightarrow> real \<Rightarrow> real \<Rightarrow> real \<Rightarrow> rng \<Rightarrow> error + population_state \<times> rng" where
  "Population_init sz cr el mu g =
     (case init_loop (nat sz) [] g of
        Inl e \<Rightarrow> Inl e
      | Inr (buf, g') \<Rightarrow>
          Inr (\<lparr>population = sort_key fitness buf, elitism = el, mutation = mu, crossover = cr\<rparr>, g'))"

text \<open>
  \<open>__tournamentSelection\<close>: an initial member as the running best, then
  \<open>tournamentSize\<close> contenders, each replacing the best when strictly fitter.
\<close>

fun tournament_loop :: "nat \<Rightarrow> chromosome list \<Rightarrow> chromosome \<Rightarrow> rng \<Rightarrow> error + chromosome \<times> rng" where
  "tournament_loop 0 pop best g = Inr (best, g)"
| "tournament_loop (Suc n) pop best g =
     (case randint 0 (int (length pop) - 1) g of
        Inl e \<Rightarrow> Inl e
      | Inr (i, g') \<Rightarrow>
          (case getitem pop i of
             Inl e \<Rightarrow> Inl e
           | Inr cont \<Rightarrow>
               tournament_loop n pop (if fitness cont < fitness best then cont else best) g'))"

definition tournamentSelection :: "population_state \<Rightarrow> rng \<Rightarrow> error + chromosome \<times> rng" where
  "tournamentSelection self g =
     (case randint 0 (int (length (population self)) - 1) g of
        Inl e \<Rightarrow> Inl e
      | Inr (i, g1) \<Rightarrow>
          (case getitem (population self) i of
             Inl e \<Rightarrow> Inl e
           | Inr best \<Rightarrow> tournament_loop tournamentSize (population self) best g1))"

definition selectParents :: "population_state \<Rightarrow> rng \<Rightarrow> error + (chromosome \<times> chromosome) \<times> rng" where
  "selectParents self g =
     (case tournamentSelection self g of
        Inl e \<Rightarrow> Inl e
      | Inr (p1, g1) \<Rightarrow>
          (case tournamentSelection self g1 of
             Inl e \<Rightarrow> Inl e
           | Inr (p2, g2) \<Rightarrow> Inr ((p1, p2), g2)))"

text \<open>
  One child of the crossover path: \<open>if random() <= self._mutation: buf.append(c.mutate())
  else: buf.append(c)\<close>.
\<close>

definition append_child :: "population_state \<Rightarrow> chromosome \<Rightarrow> chromosome list \<Rightarrow> rng \<Rightarrow> error + chromosome list \<times> rng" where
  "append_child self c buf g =
     (case random_py g of
        (u, g1) \<Rightarrow>
          if u \<le> mutation self
          then (case mutate c g1 of
                  Inl e \<Rightarrow> Inl e
                | Inr (c', g2) \<Rightarrow> Inr (buf @ [c'], g2))
          else Inr (buf @ [c], g1))"

text \<open>
  The two paths of the body of \<open>evolve\<close>'s loop. The crossover path ends with
  \<open>idx += 2\<close>. The other path ends with the statement \<open>++idx\<close>, which in Python is the
  expression \<open>+(+idx)\<close>: it is evaluated and dropped, and \<open>idx\<close> keeps its value.
\<close>

definition crossover_path :: "population_state \<Rightarrow> chromosome list \<Rightarrow> int \<Rightarrow> rng \<Rightarrow> error + chromosome list \<times> int \<times> rng" where
  "crossover_path self buf idx g =
     (case selectParents self g of
        Inl e \<Rightarrow> Inl e
      | Inr ((p1, p2), g1) \<Rightarrow>
          (case mate p1 p2 g1 of
             Inl e \<Rightarrow> Inl e
           | Inr ((c1, c2), g2) \<Rightarrow>
               (case append_child self c1 buf g2 of
                  Inl e \<Rightarrow> Inl e
                | Inr (buf1, g3) \<Rightarrow>
                    (case append_child self c2 buf1 g3 of
                       Inl e \<Rightarrow> Inl e
                     | Inr (buf2, g4) \<Rightarrow> Inr (buf2, idx + 2, g4)))))"

definition non_crossover_path :: "population_state \<Rightarrow> chromosome list \<Rightarrow> int \<Rightarrow> rng \<Rightarrow> error + chromosome list \<times> int \<times> rng" where
  "non_crossover_path self buf idx g =
     (case random_py g of
        (u, g1) \<Rightarrow>
          if u \<le> mutation self
          then (case getitem (population self) idx of
                  Inl e \<Rightarrow> Inl e
                | Inr c \<Rightarrow>
                    (case mutate c g1 of
                       Inl e \<Rightarrow> Inl e
                     | Inr (c', g2) \<Rightarrow> Inr (buf @ [c'], idx, g2)))
          else (case getitem (population self) idx of
                  Inl e \<Rightarrow> Inl e
                | Inr c \<Rightarrow> Inr (buf @ [c], idx, g1)))"

definition evolve_body :: "population_state \<Rightarrow> chromosome list \<Rightarrow> int \<Rightarrow> rng \<Rightarrow> error + chromosome list \<times> int \<times> rng" where
  "evolve_body self buf idx g =
     (case random_py g of
        (u, g1) \<Rightarrow>
          if u \<le> crossover self then crossover_path self buf idx g1
          else non_crossover_path self buf idx g1)"

text \<open>
  The loop \<open>while (idx < size)\<close>. It need not end, so its result is an option:
  \<open>None\<close> when the loop runs forever, \<open>Some (Inl e)\<close> when an exception leaves it,
  \<open>Some (Inr (buf, g))\<close> when it ends with the buffer \<open>buf\<close>.
\<close>

partial_function (option) evolve_loop ::
  "population_state \<Rightarrow> int \<Rightarrow> chromosome list \<Rightarrow> int \<Rightarrow> rng \<Rightarrow> (error + chromosome list \<times> rng) option" where
  "evolve_loop self sz buf idx g =
     (if idx < sz
      then (case evolve_body self buf idx g of
              Inl e \<Rightarrow> Some (Inl e)
            | Inr (buf', idx', g') \<Rightarrow> evolve_loop self sz buf' idx' g')
      else Some (Inr (buf, g)))"

text \<open>
  \<open>int(round(size * self._elitism))\<close>: the size becomes a double, the product of the two
  doubles is rounded to a double, \<open>round\<close> makes it integral and \<open>int\<close> converts it. A
  size too large for a double and an infinite product raise \<open>OverflowError\<close>.
\<close>

definition elite_count :: "population_state \<Rightarrow> error + int" where
  "elite_count self =
     (let n = double_round (real_of_int (int (length (population self))))
      in if 2 ^ 1024 \<le> \<bar>n\<bar> then Inl OverflowError
         else (let p = double_round (n * elitism self)
               in if 2 ^ 1024 \<le> \<bar>p\<bar> then Inl OverflowError else Inr (py_round p)))"

text \<open>
  \<open>evolve\<close>: the elite prefix, the loop, then the first \<open>size\<close> entries of the buffer
  sorted by fitness become the new \<open>_population\<close>. When an exception leaves the method
  the assignment is not reached.
\<close>

definition evolve :: "population_state \<Rightarrow> rng \<Rightarrow> (error + population_state \<times> rng) option" where
  "evolve self g =
     (let sz = int (length (population self))
      in case elite_count self of
           Inl e \<Rightarrow> Some (Inl e)
         | Inr idx \<Rightarrow>
             (let buf = slice_to (population self) idx
              in case evolve_loop self sz buf idx g of
                   None \<Rightarrow> None
                 | Some (Inl e) \<Rightarrow> Some (Inl e)
                 | Some (Inr (buf', g')) \<Rightarrow>
                     Some (Inr (self\<lparr>population := sort_key fitness (slice_to buf' sz)\<rparr>, g'))))"

text \<open>
  The object \<open>self\<close> after a call of \<open>evolve\<close> that ended: the new state when the call
  returned, the old one when an exception left it.
\<close>

definition after_evolve :: "population_state \<Rightarrow> error + population_state \<times> rng \<Rightarrow> population_state" where
  "after_evolve self r = (case r of Inl e \<Rightarrow> self | Inr (self', g') \<Rightarrow> self')"

subsection \<open>The accessor and the identity of list objects\<close>

text \<open>
  The property \<open>population\<close> returns \<open>self._population[:]\<close>, a new list object with the
  elements of the old one. Above, a list object is identified with its contents; which
  object a caller holds matters only here, so for the accessor the list objects live in
  a store: the list of all list objects, an object's address being its position.
  \<open>ref\<close> is the address that the field \<open>_population\<close> holds. An update in place of the
  list object at address \<open>a\<close> (append, item assignment, deletion, sort) is \<open>h[a := xs]\<close>
  for its new contents \<open>xs\<close>.
\<close>

type_synonym store = "chromosome list list"

definition alloc :: "store \<Rightarrow> chromosome list \<Rightarrow> nat \<times> store" where
  "alloc h xs = (length h, h @ [xs])"

definition population_property :: "store \<Rightarrow> nat \<Rightarrow> nat \<times> store" where
  "population_property h ref = alloc h (slice_from (h ! ref) 0)"

section \<open>Notions of the specification\<close>

text \<open>
  A candidate as the data model has it (a gene as long as the target, with the fitness
  the constructor computes for it), the number of positions in which two genes differ,
  and tournament selection in the specification's words: the members sampled by four
  successive draws, folded with "keep the strictly fitter one". Last, the source as one
  pass through the loop on the path without crossover leaves it: behind the draw of
  the crossover test, the draw of the mutation test and, when that test passes, the
  two draws of \<open>mutate\<close>. The crossover test never succeeds on \<open>g\<close> when the first draw
  of each of \<open>g\<close>, \<open>pass_rng self g\<close>, \<open>pass_rng self (pass_rng self g)\<close>, ... exceeds the
  crossover rate.
\<close>

definition wellformed :: "chromosome \<Rightarrow> bool" where
  "wellformed c = (c = Chromosome (gene c) \<and> length (gene c) = length target_gene)"

definition diff_count :: "'a list \<Rightarrow> 'a list \<Rightarrow> nat" where
  "diff_count xs ys = length (filter (\<lambda>(a, b). a \<noteq> b) (zip xs ys))"

definition draw_member :: "chromosome list \<Rightarrow> rng \<Rightarrow> chromosome" where
  "draw_member pop g = pop ! nat \<lfloor>fst (random_py g) * real (length pop)\<rfloor>"

definition keep_fitter :: "chromosome \<Rightarrow> chromosome \<Rightarrow> chromosome" where
  "keep_fitter best cont = (if fitness cont < fitness best then cont else best)"

definition sampled :: "chromosome list \<Rightarrow> rng \<Rightarrow> chromosome list" where
  "sampled pop g = map (\<lambda>j. draw_member pop (sdrop j g)) [0..<Suc tournamentSize]"

definition tournament_spec :: "chromosome list \<Rightarrow> rng \<Rightarrow> chromosome" where
  "tournament_spec pop g = foldl keep_fitter (hd (sampled pop g)) (tl (sampled pop g))"

definition pass_rng :: "population_state \<Rightarrow> rng \<Rightarrow> rng" where
  "pass_rng self g =
     (if fst (random_py (stl g)) \<le> mutation self then stl (stl (stl (stl g)))
      else stl (stl g))"

section \<open>Concrete inputs\<close>

text \<open>
  Raw draws with the values \<open>1/2\<close>, \<open>1/8\<close> and \<open>1 - 2^-53\<close>; three random sources whose
  every draw is \<open>0\<close>, \<open>1/2\<close> and \<open>1 - 2^-53\<close>; a source for one tournament, one for one
  generation with a crossover and one that repeats the draws \<open>1/2, 0, 0, 0\<close>. The
  populations hold the doubles that Python reads from the literals \<open>0.8\<close>, \<open>0.1\<close>,
  \<open>0.03\<close>, \<open>0.95\<close> and computes for \<open>1.0 / 3\<close>: three sorted members with the default
  rates but an elitism of a third; the same with a crossover rate of -1 and of 1/4; one
  member with the default rates; one member with negative crossover and elitism
  rates; ten equal members with an elitism of 0.95 and a crossover rate of -1.
\<close>

text \<open>A raw draw on which \<open>randint(a, a + n - 1)\<close> returns \<open>a + j\<close>.\<close>

definition draw_for :: "int \<Rightarrow> int \<Rightarrow> nat" where
  "draw_for j n = nat \<lceil>real_of_int j * 2 ^ 53 / real_of_int n\<rceil>"

definition raw_half :: nat where
  "raw_half = 2 ^ 52"

definition raw_eighth :: nat where
  "raw_eighth = 2 ^ 50"

definition raw_top :: nat where
  "raw_top = 2 ^ 53 - 1"

definition draws_zero :: rng where
  "draws_zero = sconst 0"

definition draws_half :: rng where
  "draws_half = sconst raw_half"

definition draws_top :: rng where
  "draws_top = sconst raw_top"

definition draws_tournament :: rng where
  "draws_tournament = raw_half ## 0 ## raw_half ## raw_top ## draws_zero"

definition draws_cross :: rng where
  "draws_cross =
     0 ## 0 ## 0 ## 0 ## 0 ## raw_half ## raw_half ## raw_half ## raw_half ##
     raw_eighth ## raw_half ## raw_half ## draws_half"

definition draws_cycle :: rng where
  "draws_cycle = cycle [raw_half, 0, 0, 0]"

definition pop_three :: population_state where
  "pop_three = \<lparr>population = [Chromosome ''Jello, world!'', Chromosome ''Hello, world?'',
                               Chromosome ''Hello, World?''],
                elitism = double_round (1 / 3), mutation = double_round (3 / 100),
                crossover = double_round (4 / 5)\<rparr>"

definition pop_three_nocross :: population_state where
  "pop_three_nocross = \<lparr>population = [Chromosome ''Jello, world!'', Chromosome ''Hello, world?'',
                               Chromosome ''Hello, World?''],
                elitism = double_round (1 / 3), mutation = double_round (3 / 100),
                crossover = - 1\<rparr>"

definition pop_three_quarter :: population_state where
  "pop_three_quarter = \<lparr>population = [Chromosome ''Jello, world!'', Chromosome ''Hello, world?'',
                               Chromosome ''Hello, World?''],
                elitism = double_round (1 / 3), mutation = double_round (3 / 100),
                crossover = 1 / 4\<rparr>"

definition pop_one :: population_state where
  "pop_one = \<lparr>population = [Chromosome ''Hello, world?''],
              elitism = double_round (1 / 10), mutation = double_round (3 / 100),
              crossover = double_round (4 / 5)\<rparr>"

definition pop_one_negative :: population_state where
  "pop_one_negative = \<lparr>population = [Chromosome ''Hello, world?''],
              elitism = - 3, mutation = double_round (3 / 100), crossover = - 1\<rparr>"

definition pop_ten :: population_state where
  "pop_ten = \<lparr>population = replicate 10 (Chromosome ''Hello, world?''),
              elitism = double_round (95 / 100), mutation = double_round (3 / 100),
              crossover = - 1\<rparr>"

section \<open>Doubles\<close>

lemma binary_exponent_aux_eq:
  assumes "2 powi k \<le> x" and "x < 2 powi (k + 1)" and "\<bar>k\<bar> \<le> int n"
  shows "binary_exponent_aux n x e = e + k"
  using assms
proof (induction n arbitrary: x e k)
  case 0
  then show ?case by simp
next
  case (Suc n)
  have p1: "(2::real) powi (k + 1) = 2 * 2 powi k" by (simp add: power_int_add)
  have pm: "(2::real) powi k = 2 * 2 powi (k - 1)" by (simp add: power_int_diff)
  show ?case
  proof (cases "2 \<le> x")
    case True
    have "1 \<le> k"
    proof (rule ccontr)
      assume "\<not> 1 \<le> k"
      then have "k + 1 \<le> 1" by simp
      then have "(2::real) powi (k + 1) \<le> 2 powi 1" by (intro power_int_increasing) simp_all
      with Suc.prems(2) True show False by simp
    qed
    moreover have "2 powi (k - 1) \<le> x / 2" using Suc.prems(1) pm by simp
    moreover have "x / 2 < 2 powi (k - 1 + 1)" using Suc.prems(2) p1 by simp
    moreover have "\<bar>k - 1\<bar> \<le> int n" using Suc.prems(3) \<open>1 \<le> k\<close> by simp
    ultimately show ?thesis using True Suc.IH [of "k - 1" "x / 2" "e + 1"] by simp
  next
    case False
    show ?thesis
    proof (cases "x < 1")
      case True
      have "k \<le> - 1"
      proof (rule ccontr)
        assume "\<not> k \<le> - 1"
        then have "0 \<le> k" by simp
        then have "(2::real) powi 0 \<le> 2 powi k" by (intro power_int_increasing) simp_all
        with Suc.prems(1) True show False by simp
      qed
      moreover have "2 powi (k + 1) \<le> x * 2" using Suc.prems(1) p1 by simp
      moreover have "x * 2 < 2 powi (k + 1 + 1)"
        using Suc.prems(2) p1 by (simp add: power_int_add)
      moreover have "\<bar>k + 1\<bar> \<le> int n" using Suc.prems(3) \<open>k \<le> - 1\<close> by simp
      ultimately show ?thesis using True False Suc.IH [of "k + 1" "x * 2" "e - 1"] by simp
    next
      case x: False
      have "k \<le> 0"
      proof (rule ccontr)
        assume "\<not> k \<le> 0"
        then have "1 \<le> k" by simp
        then have "(2::real) powi 1 \<le> 2 powi k" by (intro power_int_increasing) simp_all
        with Suc.prems(1) False show False by simp
      qed
      moreover have "0 \<le> k"
      proof (rule ccontr)
        assume "\<not> 0 \<le> k"
        then have "k + 1 \<le> 0" by simp
        then have "(2::real) powi (k + 1) \<le> 2 powi 0" by (intro power_int_increasing) simp_all
        with Suc.prems(2) x show False by simp
      qed
      ultimately show ?thesis using False x by simp
    qed
  qed
qed

text \<open>The rounding at a number whose binary exponent is known.\<close>

lemma double_round_eq:
  assumes "2 powi k \<le> \<bar>x\<bar>" and "\<bar>x\<bar> < 2 powi (k + 1)" and "- 1022 \<le> k" and "k \<le> 2200"
  shows "double_round x = 2 powi (k - 52) * real_of_int (round_half_even (x / 2 powi (k - 52)))"
proof -
  have "\<bar>k\<bar> \<le> int 2200" using assms(3,4) by simp
  from binary_exponent_aux_eq [OF assms(1,2) this, of 0]
  have "binary_exponent x = k" by (simp add: binary_exponent_def)
  then show ?thesis using assms(3) by (simp add: double_round_def quantum_def)
qed

lemma double_round_0 [simp]: "double_round 0 = 0"
  by (simp add: double_round_def round_half_even_def)

lemma double_round_small:
  "double_round 1 = 1" "double_round 3 = 3" "double_round 10 = 10" "double_round (- 3) = - 3"
  using double_round_eq [of 0 1] double_round_eq [of 1 3] double_round_eq [of 3 10]
    double_round_eq [of 1 "- 3"]
  by (simp_all add: round_half_even_def)

text \<open>The doubles of the rates.\<close>

lemma double_rates:
  "double_round (4 / 5) = 3602879701896397 / 4503599627370496"
  "double_round (1 / 10) = 3602879701896397 / 36028797018963968"
  "double_round (3 / 100) = 1080863910568919 / 36028797018963968"
  "double_round (1 / 3) = 6004799503160661 / 18014398509481984"
  "double_round (95 / 100) = 4278419646001971 / 4503599627370496"
  "double_round (15 / 100) = 5404319552844595 / 36028797018963968"
  "double_round (35 / 100) = 3152519739159347 / 9007199254740992"
  "double_round (58 / 100) = 5224175567749775 / 9007199254740992"
  using double_round_eq [of "- 1" "4 / 5"] double_round_eq [of "- 4" "1 / 10"]
    double_round_eq [of "- 6" "3 / 100"] double_round_eq [of "- 2" "1 / 3"]
    double_round_eq [of "- 1" "95 / 100"] double_round_eq [of "- 3" "15 / 100"]
    double_round_eq [of "- 2" "35 / 100"] double_round_eq [of "- 1" "58 / 100"]
  by (simp_all add: round_half_even_def)

text \<open>
  Products whose exact value ends in a half or just below: \<open>10 * 0.95\<close>, \<open>10 * 0.15\<close>
  and \<open>10 * 0.35\<close> are rounded up to the half and \<open>round\<close> then takes them away from
  zero; \<open>25 * 0.58\<close> stays below \<open>14.5\<close>; \<open>3 * (1.0 / 3)\<close> is 1.
\<close>

lemma double_products_exact:
  "double_round (10 * (4278419646001971 / 4503599627370496)) = 19 / 2"
  "double_round (10 * (5404319552844595 / 36028797018963968)) = 3 / 2"
  "double_round (10 * (3152519739159347 / 9007199254740992)) = 7 / 2"
  "double_round (25 * (5224175567749775 / 9007199254740992)) =
     8162774324609023 / 562949953421312"
  "double_round (3 * (6004799503160661 / 18014398509481984)) = 1"
  "double_round (1 * (3602879701896397 / 36028797018963968)) =
     3602879701896397 / 36028797018963968"
  using double_round_eq [of 3 "10 * (4278419646001971 / 4503599627370496)"]
    double_round_eq [of 0 "10 * (5404319552844595 / 36028797018963968)"]
    double_round_eq [of 1 "10 * (3152519739159347 / 9007199254740992)"]
    double_round_eq [of 3 "25 * (5224175567749775 / 9007199254740992)"]
    double_round_eq [of "- 1" "3 * (6004799503160661 / 18014398509481984)"]
    double_round_eq [of "- 4" "1 * (3602879701896397 / 36028797018963968)"]
  by (simp_all add: round_half_even_def)

lemma double_products:
  "py_round (double_round (10 * double_round (95 / 100))) = 10"
  "py_round (double_round (10 * double_round (15 / 100))) = 2"
  "py_round (double_round (10 * double_round (35 / 100))) = 4"
  "py_round (double_round (25 * double_round (58 / 100))) = 14"
  "py_round (double_round (3 * double_round (1 / 3))) = 1"
  "py_round (double_round (1 * double_round (1 / 10))) = 0"
  unfolding double_rates double_products_exact
  by (simp_all add: py_round_def)

text \<open>The elite counts of the concrete populations.\<close>

lemma elite_count_eq:
  assumes "double_round (real_of_int (int (length (population self)))) = n"
    and "double_round (n * elitism self) = p"
    and "\<bar>n\<bar> < 2 ^ 1024" and "\<bar>p\<bar> < 2 ^ 1024"
  shows "elite_count self = Inr (py_round p)"
  using assms by (simp add: elite_count_def Let_def)

lemma elite_count_three:
  assumes "length (population self) = 3" and "elitism self = double_round (1 / 3)"
  shows "elite_count self = Inr 1"
proof -
  have n: "double_round (real_of_int (int (length (population self)))) = 3"
    by (simp add: assms(1) double_round_small)
  have p: "double_round (3 * elitism self) = 1"
    by (simp only: assms(2) double_rates double_products_exact)
  from elite_count_eq [OF n p] show ?thesis by (simp add: py_round_def)
qed

lemma elite_count_pop_three: "elite_count pop_three = Inr 1"
  by (rule elite_count_three) (simp_all add: pop_three_def)

lemma elite_count_pop_three_nocross: "elite_count pop_three_nocross = Inr 1"
  by (rule elite_count_three) (simp_all add: pop_three_nocross_def)

lemma elite_count_pop_three_quarter: "elite_count pop_three_quarter = Inr 1"
  by (rule elite_count_three) (simp_all add: pop_three_quarter_def)

lemma elite_count_pop_one: "elite_count pop_one = Inr 0"
proof -
  have n: "double_round (real_of_int (int (length (population pop_one)))) = 1"
    by (simp add: pop_one_def double_round_small)
  have e: "elitism pop_one = double_round (1 / 10)" by (simp add: pop_one_def)
  have p: "double_round (1 * elitism pop_one) = 3602879701896397 / 36028797018963968"
    by (simp only: e double_rates double_products_exact)
  from elite_count_eq [OF n p] show ?thesis by (simp add: py_round_def)
qed

lemma elite_count_pop_one_negative: "elite_count pop_one_negative = Inr (- 3)"
proof -
  have n: "double_round (real_of_int (int (length (population pop_one_negative)))) = 1"
    by (simp add: pop_one_negative_def double_round_small)
  have p: "double_round (1 * elitism pop_one_negative) = - 3"
    by (simp add: pop_one_negative_def double_round_small)
  from elite_count_eq [OF n p] show ?thesis by (simp add: py_round_def)
qed

lemma elite_count_pop_ten: "elite_count pop_ten = Inr 10"
proof -
  have n: "double_round (real_of_int (int (length (population pop_ten)))) = 10"
    by (simp add: pop_ten_def double_round_small)
  have e: "elitism pop_ten = double_round (95 / 100)" by (simp add: pop_ten_def)
  have p: "double_round (10 * elitism pop_ten) = 19 / 2"
    by (simp only: e double_rates double_products_exact)
  from elite_count_eq [OF n p] show ?thesis by (simp add: py_round_def)
qed

section \<open>The random source\<close>

lemma draw_value_range: "0 \<le> draw_value k \<and> draw_value k < 1"
  by (simp add: draw_value_def)

lemma random_py_range: "0 \<le> fst (random_py g) \<and> fst (random_py g) < 1"
  using draw_value_range [of "shd g"] by (simp add: random_py_def)

lemma random_py_snd: "snd (random_py g) = stl g"
  by (simp add: random_py_def)

lemma randint_ok:
  assumes "a \<le> b"
  shows "\<exists>v. randint a b g = Inr (v, stl g) \<and> a \<le> v \<and> v \<le> b"
proof -
  obtain u where u: "random_py g = (u, stl g)" "0 \<le> u" "u < 1"
    using random_py_range [of g] random_py_snd [of g] by (cases "random_py g") auto
  let ?n = "real_of_int (b + 1 - a)"
  have n: "0 < ?n" using assms by simp
  have "0 \<le> u * ?n" using u n by simp
  then have lo: "0 \<le> \<lfloor>u * ?n\<rfloor>" by simp
  have "u * ?n < ?n" using u n by simp
  then have "\<lfloor>u * ?n\<rfloor> < b + 1 - a" by (simp add: floor_less_iff)
  with lo show ?thesis using assms u by (simp add: randint_def)
qed

text \<open>Every value of the range is returned on some draw.\<close>

lemma ceiling_scaled:
  fixes K N J :: real
  assumes "0 \<le> J" "J + 1 \<le> N" "N \<le> K" "K = real_of_int Ki"
  defines "c \<equiv> real_of_int \<lceil>J * K / N\<rceil>"
  shows "0 \<le> c \<and> c \<le> K - 1 \<and> J \<le> c / K * N \<and> c / K * N < J + 1"
proof -
  have N: "0 < N" and K: "0 < K" using assms by linarith+
  let ?x = "J * K / N"
  have x0: "0 \<le> ?x" using assms(1) N K by simp
  have lo: "?x \<le> c" unfolding c_def by (rule le_of_int_ceiling)
  have hi: "c < ?x + 1" unfolding c_def using ceiling_correct [of ?x] by linarith
  have c0: "0 \<le> c" using x0 lo by linarith
  have xN: "?x * N = J * K" using N by simp
  have "?x \<le> K - 1"
  proof -
    have "J * K \<le> (N - 1) * K" using assms(2) K by (simp add: mult_right_mono)
    also have "\<dots> = N * K - K" by (simp add: algebra_simps)
    also have "\<dots> \<le> N * K - N" using assms(3) by simp
    also have "\<dots> = (K - 1) * N" by (simp add: algebra_simps)
    finally have "?x * N \<le> (K - 1) * N" using xN by simp
    then show ?thesis using N by (simp only: mult_le_cancel_right_pos)
  qed
  then have "?x \<le> real_of_int (Ki - 1)" using assms(4) by simp
  then have "\<lceil>?x\<rceil> \<le> Ki - 1" by (simp only: ceiling_le_iff)
  then have "real_of_int \<lceil>?x\<rceil> \<le> real_of_int (Ki - 1)" by (simp only: of_int_le_iff)
  then have cK: "c \<le> K - 1" using assms(4) by (simp add: c_def)
  have a: "J \<le> c / K * N"
  proof -
    have "J * K = ?x * N" using xN by simp
    also have "\<dots> \<le> c * N" using lo N by (intro mult_right_mono) simp_all
    finally have "J * K \<le> c * N" .
    then have "J * K / K \<le> c * N / K" using K by (simp only: divide_right_mono less_imp_le)
    then show ?thesis using K by simp
  qed
  have b: "c / K * N < J + 1"
  proof -
    have "c * N < (?x + 1) * N" using hi N by (intro mult_strict_right_mono) simp_all
    also have "\<dots> = J * K + N" using xN by (simp add: algebra_simps)
    also have "\<dots> \<le> J * K + K" using assms(3) by simp
    also have "\<dots> = (J + 1) * K" by (simp add: algebra_simps)
    finally have "c * N / K < (J + 1) * K / K" using K by (simp only: divide_strict_right_mono)
    then show ?thesis using K by simp
  qed
  from c0 cK a b show ?thesis by simp
qed

lemma draw_for_floor:
  assumes j: "0 \<le> j" "j < n" and n: "n \<le> 2 ^ 53"
  shows "\<lfloor>draw_value (draw_for j n) * real_of_int n\<rfloor> = j"
proof -
  let ?c = "\<lceil>real_of_int j * 2 ^ 53 / real_of_int n\<rceil>"
  have n': "real_of_int n \<le> 2 ^ 53"
    using n by (metis of_int_le_iff of_int_numeral of_int_power)
  have K: "(2::real) ^ 53 = real_of_int (2 ^ 53)" by simp
  have j': "real_of_int j + 1 \<le> real_of_int n" using j by linarith
  have j0: "0 \<le> real_of_int j" using j by simp
  note c = ceiling_scaled [of "real_of_int j" "real_of_int n" "2 ^ 53" "2 ^ 53", OF j0 j' n' K]
  have c0: "0 \<le> ?c" using c by (simp only: of_int_0_le_iff)
  have "real_of_int ?c < 2 ^ 53" using c by linarith
  then have "?c < 2 ^ 53" by (metis of_int_less_iff of_int_numeral of_int_power)
  then have klt: "draw_for j n < 2 ^ 53" unfolding draw_for_def using c0 by (simp add: nat_less_iff)
  have kr: "real (draw_for j n) = real_of_int ?c" unfolding draw_for_def using c0 by simp
  have dv: "draw_value (draw_for j n) = real_of_int ?c / 2 ^ 53"
    unfolding draw_value_def using klt kr by (simp only: mod_less)
  show ?thesis unfolding dv using c by (intro floor_unique) simp_all
qed

lemma randint_attains:
  assumes "a \<le> v" "v \<le> b" "b + 1 - a \<le> 2 ^ 53" "shd g = draw_for (v - a) (b + 1 - a)"
  shows "randint a b g = Inr (v, stl g)"
proof -
  have "\<lfloor>draw_value (draw_for (v - a) (b + 1 - a)) * real_of_int (b + 1 - a)\<rfloor> = v - a"
    using draw_for_floor [of "v - a" "b + 1 - a"] assms by simp
  then show ?thesis using assms by (simp add: randint_def random_py_def)
qed

lemma random_py_draw_for:
  assumes "0 \<le> j" "j < n" "n \<le> 2 ^ 53"
  shows "\<lfloor>fst (random_py (draw_for j n ## g)) * real_of_int n\<rfloor> = j"
  using draw_for_floor [OF assms] by (simp add: random_py_def)

lemma random_py_SCons: "random_py (k ## g) = (draw_value k, g)"
  by (simp add: random_py_def)

lemma draw_values:
  "draw_value 0 = 0" "draw_value raw_half = 1 / 2" "draw_value raw_eighth = 1 / 8"
  "draw_value raw_top = 1 - 1 / 2 ^ 53"
  by (simp_all add: draw_value_def raw_half_def raw_eighth_def raw_top_def)

lemma random_py_zero: "random_py draws_zero = (0, draws_zero)"
  by (simp add: random_py_def draw_values draws_zero_def)

lemma random_py_half: "random_py draws_half = (1 / 2, draws_half)"
  by (simp add: random_py_def draw_values draws_half_def)

lemma random_py_top: "random_py draws_top = (1 - 1 / 2 ^ 53, draws_top)"
  by (simp add: random_py_def draw_values draws_top_def)

lemma stl_draws:
  "stl draws_zero = draws_zero" "stl draws_half = draws_half" "stl draws_top = draws_top"
  by (simp_all add: draws_zero_def draws_half_def draws_top_def)

lemma sdrop_draws_zero: "sdrop j draws_zero = draws_zero"
  by (simp add: draws_zero_def)

lemma sset_draws_half: "sset draws_half = {raw_half}"
  by (simp add: draws_half_def)

lemma getitem_ok:
  assumes "- int (length xs) \<le> i" and "i < int (length xs)"
  shows "\<exists>x\<in>set xs. getitem xs i = Inr x"
proof (cases "i < 0")
  case True
  with assms have "nat (i + int (length xs)) < length xs" by linarith
  with True assms show ?thesis by (simp add: getitem_def Let_def)
next
  case False
  with assms have "nat i < length xs" by linarith
  with False assms show ?thesis by (simp add: getitem_def Let_def)
qed

section \<open>Chromosome: fitness, mate, mutate\<close>

lemma gene_Chromosome [simp]: "gene (Chromosome gn) = gn"
  by (simp add: Chromosome_def)

lemma fitness_Chromosome: "fitness (Chromosome gn) = updateFitness gn"
  by (simp add: Chromosome_def)

lemma updateFitness_loop_sum:
  "updateFitness_loop ps acc = acc + (\<Sum>(a, b)\<leftarrow>ps. \<bar>ord a - ord b\<bar>)"
  by (induction ps acc rule: updateFitness_loop.induct) simp_all

lemma updateFitness_sum:
  "updateFitness gn =
     (\<Sum>i<min (length gn) (length target_gene). \<bar>ord (gn ! i) - ord (target_gene ! i)\<bar>)"
proof -
  have "(\<Sum>(a, b)\<leftarrow>zip xs ys. \<bar>ord a - ord b\<bar>) =
          (\<Sum>i<min (length xs) (length ys). \<bar>ord (xs ! i) - ord (ys ! i)\<bar>)" for xs ys :: string
    by (simp add: sum_list_sum_nth atLeast0LessThan)
  then show ?thesis by (simp add: updateFitness_def updateFitness_loop_sum)
qed

lemma zip_diff_zero:
  "length xs = length ys \<Longrightarrow> (\<Sum>(a, b)\<leftarrow>zip xs ys. \<bar>ord a - ord b\<bar>) = 0 \<longleftrightarrow> xs = ys"
proof (induction xs ys rule: list_induct2)
  case Nil
  then show ?case by simp
next
  case (Cons x xs y ys)
  have nn: "0 \<le> (\<Sum>(a, b)\<leftarrow>zip xs ys. \<bar>ord a - ord b\<bar>)"
    by (rule sum_list_nonneg) auto
  have "\<bar>ord x - ord y\<bar> = 0 \<longleftrightarrow> x = y" by (simp add: ord_def)
  with Cons nn show ?case by (simp add: add_nonneg_eq_0_iff)
qed

lemma fitness_values:
  "fitness (Chromosome ''Jello, world!'') = 2"
  "fitness (Chromosome ''Hello, world?'') = 30"
  "fitness (Chromosome ''Hello, World?'') = 62"
  "fitness (Chromosome ''Jello, world?'') = 32"
  "fitness (Chromosome ''Hello, world!'') = 0"
  by (simp_all add: fitness_Chromosome updateFitness_def target_gene_def ord_def)

text \<open>
  C3. The fitness that the constructor stores is the sum, over the positions that the
  gene and the target share, of the absolute difference of the character codes; for a
  gene as long as the target it is 0 exactly when the gene is the target.
\<close>

theorem Chromosome_fitness:
  "fitness (Chromosome gn) =
     (\<Sum>i<min (length gn) (length target_gene). \<bar>ord (gn ! i) - ord (target_gene ! i)\<bar>) \<and>
   (length gn = length target_gene \<longrightarrow> (fitness (Chromosome gn) = 0 \<longleftrightarrow> gn = target_gene))"
proof -
  have "length gn = length target_gene \<Longrightarrow> updateFitness gn = 0 \<longleftrightarrow> gn = target_gene"
    using zip_diff_zero [of gn target_gene] by (simp add: updateFitness_def updateFitness_loop_sum)
  with fitness_Chromosome [of gn] updateFitness_sum [of gn] show ?thesis by simp
qed

theorem Chromosome_fitness_witness:
  "length ''Hello, world!'' = length target_gene \<and>
   fitness (Chromosome ''Hello, world!'') = 0 \<and>
   length ''Hello, world?'' = length target_gene \<and>
   fitness (Chromosome ''Hello, world?'') \<noteq> 0"
  using Chromosome_fitness [of "''Hello, world!''"] Chromosome_fitness [of "''Hello, world?''"]
  by (simp add: target_gene_def ord_def)

lemma mate_children:
  assumes "length (gene self) = length (gene other)" and "1 \<le> length (gene self)"
  shows "\<exists>pivot. pivot \<le> length (gene self) - 1 \<and>
           int pivot = \<lfloor>fst (random_py g) * real (length (gene self))\<rfloor> \<and>
           mate self other g =
             Inr ((Chromosome (take pivot (gene self) @ drop pivot (gene other)),
                   Chromosome (take pivot (gene other) @ drop pivot (gene self))), stl g) \<and>
           length (take pivot (gene self) @ drop pivot (gene other)) = length (gene self) \<and>
           length (take pivot (gene other) @ drop pivot (gene self)) = length (gene self)"
proof -
  let ?L = "length (gene self)"
  have le: "(0::int) \<le> int ?L - 1" using assms(2) by linarith
  obtain v where v: "randint 0 (int ?L - 1) g = Inr (v, stl g)" "0 \<le> v" "v \<le> int ?L - 1"
    using randint_ok [OF le, of g] by auto
  have fl: "v = \<lfloor>fst (random_py g) * real ?L\<rfloor>"
    using v(1) le by (simp add: randint_def split: prod.splits)
  have len: "nat v \<le> ?L - 1" "nat v \<le> length (gene other)" "int (nat v) = v"
    using v assms by simp_all
  have m: "mate self other g =
             Inr ((Chromosome (take (nat v) (gene self) @ drop (nat v) (gene other)),
                   Chromosome (take (nat v) (gene other) @ drop (nat v) (gene self))), stl g)"
    using v by (simp add: mate_def slice_to_def slice_from_def)
  have "length (take (nat v) (gene self) @ drop (nat v) (gene other)) = ?L"
    and "length (take (nat v) (gene other) @ drop (nat v) (gene self)) = ?L"
    using len assms by simp_all
  with m len fl show ?thesis by metis
qed

lemma mate_attains:
  assumes "length (gene self) = length (gene other)" and "pivot < length (gene self)"
    and "length (gene self) \<le> 2 ^ 53"
  shows "mate self other (draw_for (int pivot) (int (length (gene self))) ## g) =
           Inr ((Chromosome (take pivot (gene self) @ drop pivot (gene other)),
                 Chromosome (take pivot (gene other) @ drop pivot (gene self))), g)"
proof -
  let ?L = "int (length (gene self))"
  have L: "?L \<le> 2 ^ 53" using assms(3) by (metis of_nat_le_iff of_nat_numeral of_nat_power)
  have "randint 0 (?L - 1) (draw_for (int pivot) ?L ## g) = Inr (int pivot, g)"
    using randint_attains [of 0 "int pivot" "?L - 1" "draw_for (int pivot) ?L ## g"] assms(2) L
    by simp
  then show ?thesis by (simp add: mate_def slice_to_def slice_from_def)
qed

text \<open>
  C2, as the code has it. For two chromosomes with genes of the same length \<open>L \<ge> 2\<close>,
  \<open>mate\<close> returns, and there is one pivot in \<open>[0, L - 1]\<close>, both ends included (the
  floor of the draw times \<open>L\<close>), such that the children are
  \<open>self.gene[0:pivot] + other.gene[pivot:]\<close> and \<open>other.gene[0:pivot] + self.gene[pivot:]\<close>,
  both of length \<open>L\<close>. Every pivot of \<open>[0, L - 1]\<close> is the one of some draw.
\<close>

theorem mate_pivot_inclusive:
  assumes "length (gene self) = length (gene other)" and "2 \<le> length (gene self)"
  shows "(\<exists>pivot. pivot \<le> length (gene self) - 1 \<and>
           int pivot = \<lfloor>fst (random_py g) * real (length (gene self))\<rfloor> \<and>
           mate self other g =
             Inr ((Chromosome (take pivot (gene self) @ drop pivot (gene other)),
                   Chromosome (take pivot (gene other) @ drop pivot (gene self))), stl g) \<and>
           length (take pivot (gene self) @ drop pivot (gene other)) = length (gene self) \<and>
           length (take pivot (gene other) @ drop pivot (gene self)) = length (gene self)) \<and>
         (\<forall>pivot. pivot \<le> length (gene self) - 1 \<longrightarrow> length (gene self) \<le> 2 ^ 53 \<longrightarrow>
           (\<exists>g. mate self other g =
             Inr ((Chromosome (take pivot (gene self) @ drop pivot (gene other)),
                   Chromosome (take pivot (gene other) @ drop pivot (gene self))), stl g)))"
proof (intro conjI allI impI)
  show "\<exists>pivot. pivot \<le> length (gene self) - 1 \<and>
           int pivot = \<lfloor>fst (random_py g) * real (length (gene self))\<rfloor> \<and>
           mate self other g =
             Inr ((Chromosome (take pivot (gene self) @ drop pivot (gene other)),
                   Chromosome (take pivot (gene other) @ drop pivot (gene self))), stl g) \<and>
           length (take pivot (gene self) @ drop pivot (gene other)) = length (gene self) \<and>
           length (take pivot (gene other) @ drop pivot (gene self)) = length (gene self)"
    using assms mate_children [of self other g] by simp
next
  fix pivot
  assume p: "pivot \<le> length (gene self) - 1" and l: "length (gene self) \<le> 2 ^ 53"
  from p assms(2) have "pivot < length (gene self)" by linarith
  from mate_attains [OF assms(1) this l, of "sconst 0"]
  show "\<exists>g. mate self other g =
             Inr ((Chromosome (take pivot (gene self) @ drop pivot (gene other)),
                   Chromosome (take pivot (gene other) @ drop pivot (gene self))), stl g)"
    by (intro exI [of _ "draw_for (int pivot) (int (length (gene self))) ## sconst 0"]) simp
qed

theorem mate_pivot_inclusive_witness:
  "length (gene (Chromosome ''abc'')) = length (gene (Chromosome ''xyz'')) \<and>
   2 \<le> length (gene (Chromosome ''abc'')) \<and>
   mate (Chromosome ''abc'') (Chromosome ''xyz'') draws_half =
     Inr ((Chromosome ''ayz'', Chromosome ''xbc''), draws_half)"
  using mate_pivot_inclusive [of "Chromosome ''abc''" "Chromosome ''xyz''" draws_half]
  by (clarsimp simp add: random_py_half stl_draws)

text \<open>
  The claim C2 as stated fails at both ends. With a draw of 0 the pivot is 0, outside
  \<open>[1, L - 1]\<close>: the first child is the whole of the other parent's gene and holds no
  character of \<open>self\<close>. With the largest draw the pivot is \<open>L - 1\<close>, the last index,
  outside \<open>[0, L - 1)\<close>.
\<close>

theorem mate_pivot_counterexample:
  "randint 0 (int (length (gene (Chromosome ''abc''))) - 1) draws_zero = Inr (0, draws_zero) \<and>
   mate (Chromosome ''abc'') (Chromosome ''xyz'') draws_zero =
     Inr ((Chromosome ''xyz'', Chromosome ''abc''), draws_zero) \<and>
   randint 0 (int (length (gene (Chromosome ''abc''))) - 1) draws_top =
     Inr (int (length (gene (Chromosome ''abc''))) - 1, draws_top) \<and>
   mate (Chromosome ''abc'') (Chromosome ''xyz'') draws_top =
     Inr ((Chromosome ''abz'', Chromosome ''xyc''), draws_top)"
  by (simp add: mate_def randint_def random_py_zero random_py_top slice_to_def slice_from_def)

lemma diff_count_same: "diff_count xs xs = 0"
  by (induction xs) (simp_all add: diff_count_def)

lemma diff_count_update: "diff_count xs (xs[i := v]) \<le> 1"
proof (induction xs arbitrary: i)
  case Nil
  then show ?case by (simp add: diff_count_def)
next
  case (Cons x xs)
  show ?case
  proof (cases i)
    case 0
    then show ?thesis using diff_count_same [of xs] by (simp add: diff_count_def)
  next
    case (Suc j)
    then show ?thesis using Cons [of j] by (simp add: diff_count_def)
  qed
qed

lemma mutate_at:
  assumes "gene self \<noteq> []"
  shows "\<exists>idx delta. idx < length (gene self) \<and> 32 \<le> delta \<and> delta \<le> 121 \<and>
           delta = \<lfloor>fst (random_py g) * 90\<rfloor> + 32 \<and>
           int idx = \<lfloor>fst (random_py (stl g)) * real (length (gene self))\<rfloor> \<and>
           mutate self g =
             Inr (Chromosome ((gene self)[idx := chr ((ord (gene self ! idx) + delta) mod 122)]),
                  stl (stl g)) \<and>
           diff_count (gene self)
             ((gene self)[idx := chr ((ord (gene self ! idx) + delta) mod 122)]) \<le> 1"
proof -
  let ?L = "length (gene self)"
  obtain r where r: "randint 0 89 g = Inr (r, stl g)" "0 \<le> r" "r \<le> 89"
    using randint_ok [of 0 89 g] by auto
  have rf: "r = \<lfloor>fst (random_py g) * 90\<rfloor>"
    using r(1) by (simp add: randint_def split: prod.splits)
  have le: "(0::int) \<le> int ?L - 1" using assms by (cases "gene self") simp_all
  obtain v where v: "randint 0 (int ?L - 1) (stl g) = Inr (v, stl (stl g))" "0 \<le> v"
      "v \<le> int ?L - 1"
    using randint_ok [OF le, of "stl g"] by auto
  have vf: "v = \<lfloor>fst (random_py (stl g)) * real ?L\<rfloor>"
    using v(1) le by (simp add: randint_def split: prod.splits)
  have idx: "nat v < ?L" "int (nat v) = v" using v assms by simp_all
  have m: "mutate self g =
             Inr (Chromosome ((gene self)[nat v := chr ((ord (gene self ! nat v) + (r + 32)) mod 122)]),
                  stl (stl g))"
    using r v by (simp add: mutate_def getitem_def setitem_def Let_def)
  have d: "32 \<le> r + 32" "r + 32 \<le> 121" using r by simp_all
  show ?thesis
    using idx m d rf vf diff_count_update [of "gene self" "nat v"]
    by (intro exI [of _ "nat v"] exI [of _ "r + 32"]) (simp only: simp_thms)
qed

lemma mutate_returns:
  assumes "gene c \<noteq> []"
  shows "\<exists>c'. mutate c g = Inr (c', stl (stl g))"
  using mutate_at [OF assms, of g] by blast

lemma mutate_attains:
  assumes "idx < length (gene self)" and "32 \<le> delta" and "delta \<le> 121"
    and "length (gene self) \<le> 2 ^ 53"
  shows "mutate self (draw_for (delta - 32) 90 ## draw_for (int idx) (int (length (gene self))) ## g) =
           Inr (Chromosome ((gene self)[idx := chr ((ord (gene self ! idx) + delta) mod 122)]), g)"
proof -
  let ?L = "int (length (gene self))"
  let ?g1 = "draw_for (int idx) ?L ## g"
  have L: "?L \<le> 2 ^ 53" using assms(4) by (metis of_nat_le_iff of_nat_numeral of_nat_power)
  have d: "randint 0 89 (draw_for (delta - 32) 90 ## ?g1) = Inr (delta - 32, ?g1)"
    using randint_attains [of 0 "delta - 32" 89 "draw_for (delta - 32) 90 ## ?g1"] assms(2,3)
    by simp
  have i: "randint 0 (?L - 1) ?g1 = Inr (int idx, g)"
    using randint_attains [of 0 "int idx" "?L - 1" ?g1] assms(1) L by simp
  show ?thesis using d i assms(1) by (simp add: mutate_def getitem_def setitem_def Let_def)
qed

text \<open>
  C7. For a chromosome with a non-empty gene, \<open>mutate\<close> returns a new chromosome whose
  gene is the old one but for one index \<open>idx\<close> below its length (the floor of the second
  draw times the length), where the character becomes
  \<open>chr((ord(old) + delta) mod 122)\<close> with \<open>delta\<close> in \<open>[32, 121]\<close> (32 plus the floor of
  the first draw times 90); the two genes differ in at most one position. Every index
  below the length and every \<open>delta\<close> of \<open>[32, 121]\<close> are the ones of some draws.
\<close>

theorem mutate_single_position:
  assumes "gene self \<noteq> []"
  shows "(\<exists>idx delta. idx < length (gene self) \<and> 32 \<le> delta \<and> delta \<le> 121 \<and>
           delta = \<lfloor>fst (random_py g) * 90\<rfloor> + 32 \<and>
           int idx = \<lfloor>fst (random_py (stl g)) * real (length (gene self))\<rfloor> \<and>
           mutate self g =
             Inr (Chromosome ((gene self)[idx := chr ((ord (gene self ! idx) + delta) mod 122)]),
                  stl (stl g)) \<and>
           diff_count (gene self)
             ((gene self)[idx := chr ((ord (gene self ! idx) + delta) mod 122)]) \<le> 1) \<and>
         (\<forall>idx delta. idx < length (gene self) \<longrightarrow> 32 \<le> delta \<longrightarrow> delta \<le> 121 \<longrightarrow>
            length (gene self) \<le> 2 ^ 53 \<longrightarrow>
            (\<exists>g. mutate self g =
               Inr (Chromosome ((gene self)[idx := chr ((ord (gene self ! idx) + delta) mod 122)]),
                    stl (stl g))))"
proof (intro conjI allI impI)
  show "\<exists>idx delta. idx < length (gene self) \<and> 32 \<le> delta \<and> delta \<le> 121 \<and>
           delta = \<lfloor>fst (random_py g) * 90\<rfloor> + 32 \<and>
           int idx = \<lfloor>fst (random_py (stl g)) * real (length (gene self))\<rfloor> \<and>
           mutate self g =
             Inr (Chromosome ((gene self)[idx := chr ((ord (gene self ! idx) + delta) mod 122)]),
                  stl (stl g)) \<and>
           diff_count (gene self)
             ((gene self)[idx := chr ((ord (gene self ! idx) + delta) mod 122)]) \<le> 1"
    using assms by (rule mutate_at)
next
  fix idx and delta :: int
  assume "idx < length (gene self)" "32 \<le> delta" "delta \<le> 121" "length (gene self) \<le> 2 ^ 53"
  from mutate_attains [OF this, of "sconst 0"]
  show "\<exists>g. mutate self g =
               Inr (Chromosome ((gene self)[idx := chr ((ord (gene self ! idx) + delta) mod 122)]),
                    stl (stl g))"
    by (intro exI [of _ "draw_for (delta - 32) 90 ##
          draw_for (int idx) (int (length (gene self))) ## sconst 0"]) simp
qed

theorem mutate_single_position_witness:
  "gene (Chromosome ''Hello, world!'') \<noteq> [] \<and>
   mutate (Chromosome ''Hello, world!'') draws_zero =
     Inr (Chromosome ''hello, world!'', draws_zero) \<and>
   diff_count ''Hello, world!'' ''hello, world!'' = 1"
proof -
  have ne: "gene (Chromosome ''Hello, world!'') \<noteq> []" by simp
  from mutate_single_position [OF ne, of draws_zero] obtain idx delta
    where d: "delta = \<lfloor>fst (random_py draws_zero) * 90\<rfloor> + 32"
      and i: "int idx = \<lfloor>fst (random_py (stl draws_zero)) *
                real (length (gene (Chromosome ''Hello, world!'')))\<rfloor>"
      and m: "mutate (Chromosome ''Hello, world!'') draws_zero =
                Inr (Chromosome ((gene (Chromosome ''Hello, world!''))
                  [idx := chr ((ord (gene (Chromosome ''Hello, world!'') ! idx) + delta) mod 122)]),
                  stl (stl draws_zero))"
    by blast
  have "delta = 32" using d by (simp add: random_py_zero)
  moreover have "idx = 0" using i by (simp add: random_py_zero stl_draws)
  ultimately have "mutate (Chromosome ''Hello, world!'') draws_zero =
      Inr (Chromosome ''hello, world!'', draws_zero)"
    using m by (simp add: stl_draws ord_def chr_def char_of_def)
  moreover have "diff_count ''Hello, world!'' ''hello, world!'' = 1"
    by (simp add: diff_count_def)
  ultimately show ?thesis using ne by simp
qed

section \<open>Tournament selection\<close>

lemma draw_member_ok:
  assumes "pop \<noteq> []"
  shows "\<exists>v. randint 0 (int (length pop) - 1) g = Inr (v, stl g) \<and>
           getitem pop v = Inr (draw_member pop g) \<and> draw_member pop g \<in> set pop"
proof -
  have le: "(0::int) \<le> int (length pop) - 1" using assms by (cases pop) simp_all
  obtain v where v: "randint 0 (int (length pop) - 1) g = Inr (v, stl g)" "0 \<le> v"
      "v \<le> int (length pop) - 1"
    using randint_ok [OF le, of g] by auto
  have vf: "v = \<lfloor>fst (random_py g) * real (length pop)\<rfloor>"
    using v(1) le by (simp add: randint_def split: prod.splits)
  have lt: "nat v < length pop" using v by linarith
  have "getitem pop v = Inr (pop ! nat v)" using v by (simp add: getitem_def Let_def)
  moreover have "pop ! nat v = draw_member pop g" by (simp add: draw_member_def vf)
  moreover have "pop ! nat v \<in> set pop" using lt by simp
  ultimately show ?thesis using v(1) by metis
qed

lemma draws_shift:
  "map (\<lambda>j. draw_member pop (sdrop j g)) [0..<Suc n] =
     draw_member pop g # map (\<lambda>j. draw_member pop (sdrop j (stl g))) [0..<n]"
  by (simp only: upt_conv_Cons [of 0 "Suc n"] map_Suc_upt [symmetric]) (simp add: comp_def)

lemma tournament_loop_foldl:
  assumes "pop \<noteq> []"
  shows "tournament_loop n pop best g =
           Inr (foldl keep_fitter best (map (\<lambda>j. draw_member pop (sdrop j g)) [0..<n]), sdrop n g)"
proof (induction n arbitrary: best g)
  case 0
  then show ?case by simp
next
  case (Suc n)
  obtain v where v: "randint 0 (int (length pop) - 1) g = Inr (v, stl g)"
      "getitem pop v = Inr (draw_member pop g)"
    using draw_member_ok [OF assms, of g] by auto
  show ?case
    using v Suc.IH [of "keep_fitter best (draw_member pop g)" "stl g"]
    by (simp only: draws_shift) (simp add: keep_fitter_def)
qed

lemma foldl_keep_fitter:
  "foldl keep_fitter b xs \<in> set (b # xs) \<and>
   (\<forall>c\<in>set (b # xs). fitness (foldl keep_fitter b xs) \<le> fitness c)"
proof (induction xs arbitrary: b)
  case Nil
  then show ?case by simp
next
  case (Cons x xs)
  show ?case using Cons [of "keep_fitter b x"]
    by (auto simp add: keep_fitter_def split: if_splits)
qed

lemma sampled_Cons:
  "sampled pop g =
     draw_member pop g # map (\<lambda>j. draw_member pop (sdrop j (stl g))) [0..<tournamentSize]"
  unfolding sampled_def by (rule draws_shift)

lemma sampled_members:
  assumes "pop \<noteq> []"
  shows "set (sampled pop g) \<subseteq> set pop"
  using draw_member_ok [OF assms] by (auto simp add: sampled_def)

lemma tournament_spec_minimal:
  "tournament_spec pop g \<in> set (sampled pop g) \<and>
   (\<forall>c\<in>set (sampled pop g). fitness (tournament_spec pop g) \<le> fitness c)"
  using foldl_keep_fitter [of "hd (sampled pop g)" "tl (sampled pop g)"]
  by (simp add: tournament_spec_def sampled_Cons)

lemma tournamentSelection_eq:
  assumes "population self \<noteq> []"
  shows "tournamentSelection self g = Inr (tournament_spec (population self) g, sdrop 4 g)"
proof -
  obtain v where v: "randint 0 (int (length (population self)) - 1) g = Inr (v, stl g)"
      "getitem (population self) v = Inr (draw_member (population self) g)"
    using draw_member_ok [OF assms, of g] by auto
  show ?thesis
    using v tournament_loop_foldl [OF assms]
    by (simp add: tournamentSelection_def tournament_spec_def sampled_Cons)
       (simp add: tournamentSize_def sdrop_stl)
qed

lemma selectParents_eq:
  assumes "population self \<noteq> []"
  shows "selectParents self g =
           Inr ((tournament_spec (population self) g,
                 tournament_spec (population self) (sdrop 4 g)), sdrop 8 g)"
  by (simp add: selectParents_def tournamentSelection_eq [OF assms])

lemma tournament_spec_zero: "tournament_spec pop draws_zero = pop ! 0"
  by (simp add: tournament_spec_def sampled_def tournamentSize_def draw_member_def
      sdrop_draws_zero random_py_zero keep_fitter_def upt_rec)

lemma draw_member_attains:
  assumes "i < length pop" and "length pop \<le> 2 ^ 53"
  shows "draw_member pop (draw_for (int i) (int (length pop)) ## g) = pop ! i"
proof -
  have L: "int (length pop) \<le> 2 ^ 53"
    using assms(2) by (metis of_nat_le_iff of_nat_numeral of_nat_power)
  have "\<lfloor>fst (random_py (draw_for (int i) (int (length pop)) ## g)) * real_of_int (int (length pop))\<rfloor> = int i"
    using random_py_draw_for [of "int i" "int (length pop)" g] assms(1) L by simp
  then show ?thesis by (simp add: draw_member_def)
qed

lemma sdrop_SCons:
  "sdrop 1 (a ## s) = s" "sdrop 2 (a ## b ## s) = s" "sdrop 3 (a ## b ## c ## s) = s"
  "sdrop 4 (a ## b ## c ## d ## s) = s"
  by (simp_all add: eval_nat_numeral)

lemma sampled_four:
  "sampled pop g =
     [draw_member pop g, draw_member pop (sdrop 1 g), draw_member pop (sdrop 2 g),
      draw_member pop (sdrop 3 g)]"
  by (simp add: sampled_def tournamentSize_def upt_rec eval_nat_numeral)

lemma sampled_attains:
  assumes "i0 < length pop" "i1 < length pop" "i2 < length pop" "i3 < length pop"
    and "length pop \<le> 2 ^ 53"
  shows "sampled pop (draw_for (int i0) (int (length pop)) ## draw_for (int i1) (int (length pop)) ##
            draw_for (int i2) (int (length pop)) ## draw_for (int i3) (int (length pop)) ## g) =
         [pop ! i0, pop ! i1, pop ! i2, pop ! i3]"
  unfolding sampled_four sdrop_SCons
  using assms(1-4) by (simp only: draw_member_attains [OF _ assms(5)])

text \<open>
  C8. On a population that is not empty, \<open>__tournamentSelection\<close> returns the survivor of
  the specification's tournament: the member at the first drawn index is the running
  best, the members at the next three drawn indices (drawn with replacement, each
  index the floor of a draw times the size) replace it when strictly fitter. The four
  sampled are members, the survivor is one of them and none of them is fitter; any four
  members, repeated or not, are the four sampled on some draws. Four draws are
  consumed. \<open>__selectParents\<close> is two such calls, the second on the draws that the
  first left, and nothing keeps the two parents apart: on the source whose draws are
  all 0 both are the first member.
\<close>

theorem tournament_selection:
  assumes "population self \<noteq> []"
  shows "tournamentSelection self g = Inr (tournament_spec (population self) g, sdrop 4 g) \<and>
         sampled (population self) g =
           [draw_member (population self) g, draw_member (population self) (sdrop 1 g),
            draw_member (population self) (sdrop 2 g), draw_member (population self) (sdrop 3 g)] \<and>
         set (sampled (population self) g) \<subseteq> set (population self) \<and>
         tournament_spec (population self) g \<in> set (sampled (population self) g) \<and>
         (\<forall>c\<in>set (sampled (population self) g).
            fitness (tournament_spec (population self) g) \<le> fitness c) \<and>
         (\<forall>i0 i1 i2 i3. i0 < length (population self) \<longrightarrow> i1 < length (population self) \<longrightarrow>
            i2 < length (population self) \<longrightarrow> i3 < length (population self) \<longrightarrow>
            length (population self) \<le> 2 ^ 53 \<longrightarrow>
            (\<exists>g. sampled (population self) g =
               [population self ! i0, population self ! i1, population self ! i2,
                population self ! i3])) \<and>
         selectParents self g =
           Inr ((tournament_spec (population self) g,
                 tournament_spec (population self) (sdrop 4 g)), sdrop 8 g) \<and>
         selectParents self draws_zero =
           Inr ((population self ! 0, population self ! 0), draws_zero)"
proof -
  have z: "selectParents self draws_zero =
           Inr ((population self ! 0, population self ! 0), draws_zero)"
    by (simp add: selectParents_eq [OF assms] sdrop_draws_zero tournament_spec_zero)
  have a: "\<forall>i0 i1 i2 i3. i0 < length (population self) \<longrightarrow> i1 < length (population self) \<longrightarrow>
            i2 < length (population self) \<longrightarrow> i3 < length (population self) \<longrightarrow>
            length (population self) \<le> 2 ^ 53 \<longrightarrow>
            (\<exists>g. sampled (population self) g =
               [population self ! i0, population self ! i1, population self ! i2,
                population self ! i3])"
    using sampled_attains [of _ "population self" _ _ _ "sconst 0"] by blast
  note m = tournament_spec_minimal [of "population self" g]
  show ?thesis
    by (intro conjI)
       (rule tournamentSelection_eq [OF assms], rule sampled_four,
        rule sampled_members [OF assms], rule conjunct1 [OF m], rule conjunct2 [OF m],
        rule a, rule selectParents_eq [OF assms], rule z)
qed

lemma pop_three_fields:
  "population pop_three = [Chromosome ''Jello, world!'', Chromosome ''Hello, world?'',
                           Chromosome ''Hello, World?'']"
  "elitism pop_three = double_round (1 / 3)"
  "mutation pop_three = 1080863910568919 / 36028797018963968"
  "crossover pop_three = 3602879701896397 / 4503599627370496"
  by (simp_all add: pop_three_def double_rates)

text \<open>
  One tournament on the population of three: the draws pick the second member, the
  first (strictly fitter, it replaces the running best), the second and the third.
\<close>

theorem tournament_selection_witness:
  "population pop_three \<noteq> [] \<and>
   sampled (population pop_three) draws_tournament =
     [Chromosome ''Hello, world?'', Chromosome ''Jello, world!'', Chromosome ''Hello, world?'',
      Chromosome ''Hello, World?''] \<and>
   tournamentSelection pop_three draws_tournament = Inr (Chromosome ''Jello, world!'', draws_zero)"
proof -
  have ne: "population pop_three \<noteq> []" by (simp add: pop_three_fields)
  have s: "sampled (population pop_three) draws_tournament =
     [Chromosome ''Hello, world?'', Chromosome ''Jello, world!'', Chromosome ''Hello, world?'',
      Chromosome ''Hello, World?'']"
    by (simp add: sampled_four draws_tournament_def sdrop_SCons draw_member_def random_py_SCons
        draw_values random_py_zero pop_three_fields)
  have t: "tournament_spec (population pop_three) draws_tournament = Chromosome ''Jello, world!''"
    by (simp add: tournament_spec_def s keep_fitter_def fitness_values)
  have d: "sdrop 4 draws_tournament = draws_zero"
    by (simp add: draws_tournament_def sdrop_SCons)
  from tournament_selection [OF ne, of draws_tournament] ne s show ?thesis
    by (simp add: t d)
qed

section \<open>Construction\<close>

lemma genRandom_loop_ok:
  "\<exists>gn g'. genRandom_loop n acc g = Inr (gn, g') \<and> length gn = length acc + n"
proof (induction n arbitrary: acc g)
  case 0
  then show ?case by simp
next
  case (Suc n)
  obtain r where r: "randint 0 89 g = Inr (r, stl g)" using randint_ok [of 0 89 g] by auto
  from Suc [of "acc @ [chr (r + 32)]" "stl g"] r show ?case by auto
qed

lemma wellformed_Chromosome:
  "length gn = length target_gene \<Longrightarrow> wellformed (Chromosome gn)"
  by (simp add: wellformed_def)

lemma wellformed_nonempty: "wellformed c \<Longrightarrow> gene c \<noteq> []"
  by (auto simp add: wellformed_def target_gene_def)

lemma genRandom_ok: "\<exists>c g'. genRandom g = Inr (c, g') \<and> wellformed c"
  using genRandom_loop_ok [of "length target_gene" "[]" g]
  by (auto simp add: genRandom_def intro: wellformed_Chromosome)

lemma init_loop_ok:
  assumes "\<forall>c\<in>set buf. wellformed c"
  shows "\<exists>buf' g'. init_loop n buf g = Inr (buf', g') \<and> length buf' = length buf + n \<and>
     (\<forall>c\<in>set buf'. wellformed c)"
  using assms
proof (induction n arbitrary: buf g)
  case 0
  then show ?case by simp
next
  case (Suc n)
  obtain c g1 where c: "genRandom g = Inr (c, g1)" "wellformed c"
    using genRandom_ok [of g] by blast
  have "\<forall>x\<in>set (buf @ [c]). wellformed x" using Suc.prems c by simp
  from Suc.IH [OF this, of g1] c show ?case by auto
qed

text \<open>
  The constructor always returns: a population of \<open>size\<close> members (none when \<open>size\<close> is
  negative), every one as the data model has it, sorted by fitness.
\<close>

lemma Population_init_ok:
  "\<exists>p g'. Population_init sz cr el mu g = Inr (p, g') \<and> length (population p) = nat sz \<and>
     (\<forall>c\<in>set (population p). wellformed c) \<and>
     sorted (map fitness (population p)) \<and> elitism p = el \<and> mutation p = mu \<and> crossover p = cr"
proof -
  obtain buf g' where b: "init_loop (nat sz) [] g = Inr (buf, g')" "length buf = nat sz"
     "\<forall>c\<in>set buf. wellformed c"
    using init_loop_ok [of "[]" "nat sz" g] by auto
  then show ?thesis by (simp add: Population_init_def)
qed

lemma sorted_head_min:
  assumes "sorted (map fitness xs)"
  shows "\<forall>c\<in>set xs. fitness (xs ! 0) \<le> fitness c"
  using assms by (cases xs) auto

section \<open>The loop of evolve\<close>

lemma evolve_body_appends:
  assumes "evolve_body self buf idx g = Inr (buf', idx', g')"
  shows "\<exists>ys. buf' = buf @ ys \<and>
           ((length ys = 2 \<and> idx' = idx + 2) \<or> (length ys = 1 \<and> idx' = idx))"
  using assms
  by (auto simp add: evolve_body_def crossover_path_def non_crossover_path_def append_child_def
      split: prod.splits sum.splits if_splits)

text \<open>
  When the loop ends with a buffer, the buffer it started from is a prefix of it, and if
  the start buffer was at least as long as the smaller of \<open>idx\<close> and \<open>size\<close>, then the
  final buffer has at least \<open>size\<close> entries.
\<close>

lemma evolve_loop_result:
  assumes "evolve_loop self sz buf idx g = Some y"
  shows "\<forall>buf' g'. y = Inr (buf', g') \<longrightarrow>
           (\<exists>ys. buf' = buf @ ys) \<and>
           (idx \<le> int (length buf) \<or> sz \<le> int (length buf) \<longrightarrow> sz \<le> int (length buf'))"
proof -
  let ?P = "\<lambda>(self::population_state) sz buf idx (g::rng) y.
      \<forall>buf' (g'::rng). y = Inr (buf', g') \<longrightarrow>
           (\<exists>ys. buf' = buf @ ys) \<and>
           (idx \<le> int (length buf) \<or> sz \<le> int (length buf) \<longrightarrow> sz \<le> int (length buf'))"
  have "?P self sz buf idx g y"
  proof (rule evolve_loop.raw_induct [where P = ?P, OF _ assms], goal_cases)
    case (1 loop self sz buf idx g y)
    show ?case
    proof (cases "idx < sz")
      case False
      with 1(2) have y: "y = Inr (buf, g)" by simp
      show ?thesis
      proof (intro allI impI)
        fix buf' g'
        assume "y = Inr (buf', g')"
        with y have b: "buf' = buf" by simp
        then have p: "\<exists>ys. buf' = buf @ ys" by simp
        have "idx \<le> int (length buf) \<or> sz \<le> int (length buf) \<longrightarrow> sz \<le> int (length buf')"
          unfolding b using False by linarith
        with p show "(\<exists>ys. buf' = buf @ ys) \<and>
             (idx \<le> int (length buf) \<or> sz \<le> int (length buf) \<longrightarrow> sz \<le> int (length buf'))"
          by blast
      qed
    next
      case True
      show ?thesis
      proof (cases "evolve_body self buf idx g")
        case (Inl e)
        with True 1(2) show ?thesis by auto
      next
        case (Inr st)
        obtain buf1 idx1 g1 where st: "st = (buf1, idx1, g1)" by (cases st) auto
        from Inr st evolve_body_appends [of self buf idx g buf1 idx1 g1]
        obtain ys where ys: "buf1 = buf @ ys"
            "(length ys = 2 \<and> idx1 = idx + 2) \<or> (length ys = 1 \<and> idx1 = idx)"
          by auto
        from True Inr st 1(2) have call: "loop self sz buf1 idx1 g1 = Some y" by simp
        note ih = 1(1) [OF call]
        show ?thesis
        proof (intro allI impI)
          fix buf' g'
          assume y: "y = Inr (buf', g')"
          with ih obtain zs where zs: "buf' = buf1 @ zs" by auto
          from ih y have len: "idx1 \<le> int (length buf1) \<or> sz \<le> int (length buf1) \<longrightarrow>
              sz \<le> int (length buf')"
            by auto
          have "\<exists>ys. buf' = buf @ ys" using zs ys(1) by simp
          moreover have "idx \<le> int (length buf) \<or> sz \<le> int (length buf) \<longrightarrow>
              sz \<le> int (length buf')"
            using len ys by auto
          ultimately show "(\<exists>ys. buf' = buf @ ys) \<and>
             (idx \<le> int (length buf) \<or> sz \<le> int (length buf) \<longrightarrow> sz \<le> int (length buf'))"
            by simp
        qed
      qed
    qed
  qed
  then show ?thesis .
qed

lemma evolve_Some:
  assumes "evolve self g = Some r"
  shows "(\<exists>e. r = Inl e) \<or>
         (\<exists>k buf' g'. elite_count self = Inr k \<and>
            r = Inr (self\<lparr>population :=
                  sort_key fitness (slice_to buf' (int (length (population self))))\<rparr>, g') \<and>
            evolve_loop self (int (length (population self)))
              (slice_to (population self) k) k g = Some (Inr (buf', g')))"
  using assms
  by (auto simp add: evolve_def Let_def split: option.splits sum.splits prod.splits)

lemma evolve_returns:
  assumes "evolve self g = Some (Inr (self', g'))"
  shows "\<exists>k buf'. elite_count self = Inr k \<and>
            self' = self\<lparr>population :=
                  sort_key fitness (slice_to buf' (int (length (population self))))\<rparr> \<and>
            evolve_loop self (int (length (population self)))
              (slice_to (population self) k) k g = Some (Inr (buf', g'))"
  using evolve_Some [OF assms] by auto

lemma evolve_length:
  assumes "evolve self g = Some r"
  shows "length (population (after_evolve self r)) = length (population self)"
proof -
  let ?sz = "int (length (population self))"
  from evolve_Some [OF assms] show ?thesis
  proof (elim disjE exE conjE)
    fix e assume "r = Inl e"
    then show ?thesis by (simp add: after_evolve_def)
  next
    fix k buf' g'
    assume r: "r = Inr (self\<lparr>population := sort_key fitness (slice_to buf' ?sz)\<rparr>, g')"
      and l: "evolve_loop self ?sz (slice_to (population self) k) k g = Some (Inr (buf', g'))"
    have init: "k \<le> int (length (slice_to (population self) k)) \<or>
                ?sz \<le> int (length (slice_to (population self) k))"
      by (auto simp add: slice_to_def)
    from evolve_loop_result [OF l] init have "?sz \<le> int (length buf')" by blast
    then show ?thesis using r by (simp add: after_evolve_def slice_to_def)
  qed
qed

lemma evolve_elite:
  assumes "evolve self g = Some (Inr (self', g'))"
  shows "\<exists>k ys. elite_count self = Inr k \<and>
           population self' =
             sort_key fitness
               (slice_to (slice_to (population self) k @ ys) (int (length (population self)))) \<and>
           mset (take (nat k) (population self)) \<subseteq># mset (population self')"
proof -
  let ?pop = "population self"
  let ?sz = "int (length ?pop)"
  obtain k buf' where k: "elite_count self = Inr k"
    and s: "self' = self\<lparr>population := sort_key fitness (slice_to buf' ?sz)\<rparr>"
    and l: "evolve_loop self ?sz (slice_to ?pop k) k g = Some (Inr (buf', g'))"
    using evolve_returns [OF assms] by blast
  from evolve_loop_result [OF l] obtain ys where ys: "buf' = slice_to ?pop k @ ys" by blast
  have p: "population self' = sort_key fitness (slice_to (slice_to ?pop k @ ys) ?sz)"
    using s ys by simp
  have "mset (take (nat k) ?pop) \<subseteq># mset (population self')"
  proof (cases "k < 0")
    case True
    then show ?thesis by simp
  next
    case False
    then have e: "slice_to ?pop k = take (nat k) ?pop" by (simp add: slice_to_def)
    define zs where "zs = take (nat k) ?pop"
    have "length zs \<le> length ?pop" by (simp add: zs_def)
    then have "take (length ?pop) (zs @ ys) = zs @ take (length ?pop - length zs) ys"
      by simp
    then have "mset zs \<subseteq># mset (take (length ?pop) buf')"
      unfolding ys e zs_def [symmetric] by simp
    then show ?thesis using s by (simp add: slice_to_def zs_def)
  qed
  with k p show ?thesis by blast
qed

section \<open>Candidates stay well formed\<close>

text \<open>
  \<open>mate\<close> and \<open>mutate\<close> build their results with the constructor and keep the length of
  the gene, so a call of \<open>evolve\<close> that returns on well-formed candidates leaves
  well-formed candidates; the constructor of the population starts with such.
\<close>

lemma mate_wellformed:
  assumes "wellformed p1" and "wellformed p2"
  shows "\<exists>c1 c2. mate p1 p2 g = Inr ((c1, c2), stl g) \<and> wellformed c1 \<and> wellformed c2"
proof -
  have l: "length (gene p1) = length (gene p2)" "1 \<le> length (gene p1)"
    using assms by (simp_all add: wellformed_def target_gene_def)
  from mate_children [OF l, of g] obtain pivot where
    m: "mate p1 p2 g =
             Inr ((Chromosome (take pivot (gene p1) @ drop pivot (gene p2)),
                   Chromosome (take pivot (gene p2) @ drop pivot (gene p1))), stl g)"
    and l1: "length (take pivot (gene p1) @ drop pivot (gene p2)) = length (gene p1)"
    and l2: "length (take pivot (gene p2) @ drop pivot (gene p1)) = length (gene p1)"
    by blast
  have "wellformed (Chromosome (take pivot (gene p1) @ drop pivot (gene p2)))"
    using l1 assms(1) by (intro wellformed_Chromosome) (simp add: wellformed_def)
  moreover have "wellformed (Chromosome (take pivot (gene p2) @ drop pivot (gene p1)))"
    using l2 assms(1) by (intro wellformed_Chromosome) (simp add: wellformed_def)
  ultimately show ?thesis using m by blast
qed

lemma mutate_wellformed:
  assumes "wellformed c"
  shows "\<exists>c'. mutate c g = Inr (c', stl (stl g)) \<and> wellformed c'"
proof -
  from mutate_at [OF wellformed_nonempty [OF assms], of g] obtain idx delta where
    m: "mutate c g =
             Inr (Chromosome ((gene c)[idx := chr ((ord (gene c ! idx) + delta) mod 122)]),
                  stl (stl g))"
    by blast
  have "wellformed (Chromosome ((gene c)[idx := chr ((ord (gene c ! idx) + delta) mod 122)]))"
    using assms by (intro wellformed_Chromosome) (simp add: wellformed_def)
  with m show ?thesis by blast
qed

lemma sset_sdrop: "sset (sdrop n g) \<subseteq> sset g"
proof (induction n arbitrary: g)
  case 0
  then show ?case by simp
next
  case (Suc n)
  have "sset (sdrop n (stl g)) \<subseteq> sset (stl g)" by (rule Suc)
  also have "\<dots> \<subseteq> sset g" by (auto dest: stl_sset)
  finally show ?case by simp
qed

lemma sset_stl: "sset (stl g) \<subseteq> sset g"
  by (auto dest: stl_sset)

lemma append_child_wellformed:
  assumes "wellformed c"
  shows "\<exists>c' g'. append_child self c buf g = Inr (buf @ [c'], g') \<and> wellformed c' \<and>
           sset g' \<subseteq> sset g"
proof (cases "fst (random_py g) \<le> mutation self")
  case True
  obtain c' where c': "mutate c (stl g) = Inr (c', stl (stl (stl g)))" "wellformed c'"
    using mutate_wellformed [OF assms, of "stl g"] by blast
  from True c' have "append_child self c buf g = Inr (buf @ [c'], stl (stl (stl g)))"
    by (simp add: append_child_def random_py_def)
  moreover have "sset (stl (stl (stl g))) \<subseteq> sset g"
    using sset_stl [of g] sset_stl [of "stl g"] sset_stl [of "stl (stl g)"] by blast
  ultimately show ?thesis using c'(2) by blast
next
  case False
  then have "append_child self c buf g = Inr (buf @ [c], stl g)"
    by (simp add: append_child_def random_py_def)
  with assms sset_stl [of g] show ?thesis by blast
qed

lemma crossover_path_wellformed:
  assumes pop: "population self \<noteq> []"
    and wf: "\<forall>c\<in>set (population self). wellformed c"
  shows "\<exists>c1 c2 g'. crossover_path self buf idx g = Inr (buf @ [c1, c2], idx + 2, g') \<and>
           wellformed c1 \<and> wellformed c2 \<and> sset g' \<subseteq> sset g"
proof -
  let ?p1 = "tournament_spec (population self) g"
  let ?p2 = "tournament_spec (population self) (sdrop 4 g)"
  have sp: "selectParents self g = Inr ((?p1, ?p2), sdrop 8 g)"
    by (rule selectParents_eq [OF pop])
  have "?p1 \<in> set (population self)" "?p2 \<in> set (population self)"
    using tournament_spec_minimal sampled_members [OF pop] by blast+
  with wf have w: "wellformed ?p1" "wellformed ?p2" by blast+
  define g1 where "g1 = stl (sdrop 8 g)"
  have s1: "sset g1 \<subseteq> sset g"
    unfolding g1_def using sset_stl [of "sdrop 8 g"] sset_sdrop [of 8 g] by blast
  obtain c1 c2 where m: "mate ?p1 ?p2 (sdrop 8 g) = Inr ((c1, c2), g1)"
      and wc: "wellformed c1" "wellformed c2"
    unfolding g1_def using mate_wellformed [OF w, of "sdrop 8 g"] by blast
  obtain d1 g2 where a1: "append_child self c1 buf g1 = Inr (buf @ [d1], g2)"
      and wd1: "wellformed d1" and s2: "sset g2 \<subseteq> sset g1"
    using append_child_wellformed [OF wc(1)] by blast
  obtain d2 g3 where a2: "append_child self c2 (buf @ [d1]) g2 = Inr ((buf @ [d1]) @ [d2], g3)"
      and wd2: "wellformed d2" and s3: "sset g3 \<subseteq> sset g2"
    using append_child_wellformed [OF wc(2)] by blast
  have "crossover_path self buf idx g = Inr (buf @ [d1, d2], idx + 2, g3)"
    using sp m a1 a2 by (simp add: crossover_path_def)
  moreover have "sset g3 \<subseteq> sset g" using s1 s2 s3 by blast
  ultimately show ?thesis using wd1 wd2 by blast
qed

lemma non_crossover_path_wellformed:
  assumes wf: "\<forall>c\<in>set (population self). wellformed c"
    and r: "non_crossover_path self buf idx g = Inr (buf', idx', g')"
  shows "\<exists>c. buf' = buf @ [c] \<and> wellformed c"
proof (cases "getitem (population self) idx")
  case (Inl e)
  with r show ?thesis
    by (simp add: non_crossover_path_def split: prod.splits if_splits)
next
  case (Inr c)
  then have "c \<in> set (population self)"
    by (auto simp add: getitem_def Let_def split: if_splits)
  with wf have w: "wellformed c" by blast
  show ?thesis
  proof (cases "fst (random_py g) \<le> mutation self")
    case True
    obtain c' where "mutate c (stl g) = Inr (c', stl (stl (stl g)))" "wellformed c'"
      using mutate_wellformed [OF w, of "stl g"] by blast
    with True Inr r show ?thesis
      by (auto simp add: non_crossover_path_def random_py_def)
  next
    case False
    with Inr r w show ?thesis
      by (auto simp add: non_crossover_path_def random_py_def)
  qed
qed

lemma evolve_body_wellformed:
  assumes wf: "\<forall>c\<in>set (population self). wellformed c"
    and r: "evolve_body self buf idx g = Inr (buf', idx', g')"
  shows "\<exists>ys. buf' = buf @ ys \<and> (\<forall>c\<in>set ys. wellformed c)"
proof (cases "fst (random_py g) \<le> crossover self")
  case True
  with r have c: "crossover_path self buf idx (stl g) = Inr (buf', idx', g')"
    by (simp add: evolve_body_def random_py_def)
  have "population self \<noteq> []"
  proof
    assume "population self = []"
    then have "crossover_path self buf idx (stl g) = Inl ValueError"
      by (simp add: crossover_path_def selectParents_def tournamentSelection_def randint_def)
    with c show False by simp
  qed
  from crossover_path_wellformed [OF this wf, of buf idx "stl g"] c show ?thesis
    by auto
next
  case False
  with r have "non_crossover_path self buf idx (stl g) = Inr (buf', idx', g')"
    by (simp add: evolve_body_def random_py_def)
  from non_crossover_path_wellformed [OF wf this] show ?thesis by auto
qed

lemma evolve_loop_wellformed:
  assumes l: "evolve_loop self sz buf idx g = Some y"
  shows "(\<forall>c\<in>set (population self). wellformed c) \<longrightarrow> (\<forall>c\<in>set buf. wellformed c) \<longrightarrow>
         (\<forall>buf' g'. y = Inr (buf', g') \<longrightarrow> (\<forall>c\<in>set buf'. wellformed c))"
proof -
  let ?P = "\<lambda>self (sz::int) buf (idx::int) (g::rng) y.
      (\<forall>c\<in>set (population self). wellformed c) \<longrightarrow> (\<forall>c\<in>set buf. wellformed c) \<longrightarrow>
      (\<forall>buf' (g'::rng). y = Inr (buf', g') \<longrightarrow> (\<forall>c\<in>set buf'. wellformed c))"
  have "?P self sz buf idx g y"
  proof (rule evolve_loop.raw_induct [where P = ?P, OF _ l], goal_cases)
    case (1 loop self sz buf idx g y)
    show ?case
    proof (intro impI allI)
      fix buf' g'
      assume wf: "\<forall>c\<in>set (population self). wellformed c"
        and wb: "\<forall>c\<in>set buf. wellformed c"
        and y: "y = Inr (buf', g')"
      show "\<forall>c\<in>set buf'. wellformed c"
      proof (cases "idx < sz")
        case False
        with 1(2) y wb show ?thesis by simp
      next
        case True
        show ?thesis
        proof (cases "evolve_body self buf idx g")
          case (Inl e)
          with True 1(2) y show ?thesis by simp
        next
          case (Inr st)
          obtain buf1 idx1 g1 where st: "st = (buf1, idx1, g1)" by (cases st) auto
          from evolve_body_wellformed [OF wf Inr [unfolded st]] wb
          have wb1: "\<forall>c\<in>set buf1. wellformed c" by auto
          from True Inr st 1(2) have "loop self sz buf1 idx1 g1 = Some y" by simp
          from 1(1) [OF this] wf wb1 y show ?thesis by blast
        qed
      qed
    qed
  qed
  then show ?thesis .
qed

lemma evolve_wellformed:
  assumes wf: "\<forall>c\<in>set (population self). wellformed c"
    and r: "evolve self g = Some (Inr (self', g'))"
  shows "\<forall>c\<in>set (population self'). wellformed c"
proof -
  let ?pop = "population self"
  obtain k buf'
    where s: "self' = self\<lparr>population := sort_key fitness (slice_to buf' (int (length ?pop)))\<rparr>"
    and l: "evolve_loop self (int (length ?pop)) (slice_to ?pop k) k g = Some (Inr (buf', g'))"
    using evolve_returns [OF r] by blast
  have "\<forall>c\<in>set (slice_to ?pop k). wellformed c"
    using wf by (auto simp add: slice_to_def dest: in_set_takeD)
  with evolve_loop_wellformed [OF l] wf have "\<forall>c\<in>set buf'. wellformed c" by blast
  then show ?thesis using s by (auto simp add: slice_to_def dest: in_set_takeD)
qed

subsection \<open>A call that returns\<close>

text \<open>
  When every draw of the source passes the crossover test (as with a crossover rate of
  1 or more), every pass through the loop takes the crossover path and moves the fill
  index by 2: on a population of well-formed candidates whose elite count does not
  overflow, \<open>evolve\<close> returns.
\<close>

lemma crossover_step:
  assumes pop: "population self \<noteq> []"
    and wf: "\<forall>c\<in>set (population self). wellformed c"
    and always: "\<forall>k\<in>sset g. draw_value k \<le> crossover self"
  shows "\<exists>buf' g'. evolve_body self buf idx g = Inr (buf', idx + 2, g') \<and> sset g' \<subseteq> sset g"
proof -
  have "shd g \<in> sset g" by (rule shd_sset)
  with always have "draw_value (shd g) \<le> crossover self" by blast
  then have b: "evolve_body self buf idx g = crossover_path self buf idx (stl g)"
    by (simp add: evolve_body_def random_py_def)
  from crossover_path_wellformed [OF pop wf, of buf idx "stl g"] obtain buf' g'
    where "crossover_path self buf idx (stl g) = Inr (buf', idx + 2, g')" "sset g' \<subseteq> sset (stl g)"
    by blast
  with b sset_stl [of g] show ?thesis by auto
qed

lemma evolve_loop_returns:
  assumes wf: "\<forall>c\<in>set (population self). wellformed c"
    and always: "\<forall>k\<in>sset g. draw_value k \<le> crossover self"
    and idx: "population self = [] \<longrightarrow> 0 \<le> idx"
  shows "\<exists>buf' g'. evolve_loop self (int (length (population self))) buf idx g = Some (Inr (buf', g'))"
  using always idx
proof (induction "nat (int (length (population self)) - idx)" arbitrary: buf idx g rule: less_induct)
  case less
  let ?sz = "int (length (population self))"
  show ?case
  proof (cases "idx < ?sz")
    case False
    then show ?thesis by (subst evolve_loop.simps) simp
  next
    case True
    then have pop: "population self \<noteq> []" using less.prems(2) by auto
    obtain buf1 g1 where b: "evolve_body self buf idx g = Inr (buf1, idx + 2, g1)"
        and s: "sset g1 \<subseteq> sset g"
      using crossover_step [OF pop wf less.prems(1)] by blast
    have m: "nat (?sz - (idx + 2)) < nat (?sz - idx)" using True by linarith
    have a: "\<forall>k\<in>sset g1. draw_value k \<le> crossover self" using less.prems(1) s by blast
    have i: "population self = [] \<longrightarrow> 0 \<le> idx + 2" using pop by simp
    from less.hyps [OF m a i, of buf1] obtain buf' g'
      where "evolve_loop self ?sz buf1 (idx + 2) g1 = Some (Inr (buf', g'))" by blast
    with True b show ?thesis by (subst evolve_loop.simps) simp
  qed
qed

lemma elite_count_empty:
  assumes "population self = []"
  shows "elite_count self = Inr 0"
  using assms by (simp add: elite_count_def py_round_def)

lemma evolve_returns_when_crossover_always:
  assumes wf: "\<forall>c\<in>set (population self). wellformed c"
    and always: "\<forall>k\<in>sset g. draw_value k \<le> crossover self"
    and k: "elite_count self = Inr k"
  shows "\<exists>self' g'. evolve self g = Some (Inr (self', g'))"
proof -
  have "population self = [] \<longrightarrow> 0 \<le> k"
    using k elite_count_empty [of self] by auto
  from evolve_loop_returns [OF wf always this]
  obtain buf' g' where "evolve_loop self (int (length (population self)))
      (slice_to (population self) k) k g = Some (Inr (buf', g'))"
    by blast
  then show ?thesis using k by (simp add: evolve_def Let_def)
qed

subsection \<open>One generation of the population of three\<close>

text \<open>
  With an elite of one, the loop runs once, on the crossover path: the first
  tournament picks the first member four times, the second the second member four
  times, the pivot is 1 and no child is mutated. The children are
  \<open>J + ello, world?\<close> and \<open>H + ello, world!\<close>, the second of them the target.
\<close>

lemma evolve_body_pop_three:
  "evolve_body pop_three [Chromosome ''Jello, world!''] 1 draws_cross =
     Inr ([Chromosome ''Jello, world!'', Chromosome ''Jello, world?'',
           Chromosome ''Hello, world!''], 3, draws_half)"
  by (simp add: evolve_body_def crossover_path_def selectParents_def tournamentSelection_def
      tournamentSize_def numeral_3_eq_3 pop_three_fields draws_cross_def randint_def
      random_py_SCons draw_values getitem_def fitness_values mate_def slice_to_def slice_from_def
      append_child_def)

lemma evolve_loop_pop_three:
  "evolve_loop pop_three 3 [Chromosome ''Jello, world!''] 1 draws_cross =
     Some (Inr ([Chromosome ''Jello, world!'', Chromosome ''Jello, world?'',
                 Chromosome ''Hello, world!''], draws_half))"
  by (subst evolve_loop.simps, simp add: evolve_body_pop_three, subst evolve_loop.simps, simp)

lemma evolve_pop_three:
  "evolve pop_three draws_cross =
     Some (Inr (pop_three\<lparr>population := [Chromosome ''Hello, world!'', Chromosome ''Jello, world!'',
                                         Chromosome ''Jello, world?'']\<rparr>, draws_half))"
  by (simp add: evolve_def Let_def elite_count_pop_three pop_three_fields(1) slice_to_def
      evolve_loop_pop_three fitness_values)

subsection \<open>A generation whose elite is the whole population\<close>

lemma pop_three_elitism: "elitism pop_three = 6004799503160661 / 18014398509481984"
  by (simp add: pop_three_def double_rates)

lemma pop_ten_fields:
  "population pop_ten = replicate 10 (Chromosome ''Hello, world?'')"
  "elitism pop_ten = double_round (95 / 100)" "crossover pop_ten = - 1"
  by (simp_all add: pop_ten_def)

text \<open>
  Ten members and an elitism of 0.95: the double product is 9.5, the elite count is 10
  and the loop is not entered.
\<close>

lemma evolve_pop_ten: "evolve pop_ten g = Some (Inr (pop_ten, g))"
proof -
  have l: "evolve_loop pop_ten 10 (replicate 10 (Chromosome ''Hello, world?'')) 10 g =
      Some (Inr (replicate 10 (Chromosome ''Hello, world?''), g))"
    by (subst evolve_loop.simps) simp
  have s: "sort_key fitness (replicate 10 (Chromosome ''Hello, world?'')) =
      replicate 10 (Chromosome ''Hello, world?'')"
    by (simp add: sort_key_id_if_sorted sorted_replicate)
  have "pop_ten\<lparr>population := replicate 10 (Chromosome ''Hello, world?'')\<rparr> = pop_ten"
    by (simp add: pop_ten_def)
  then show ?thesis
    by (simp add: evolve_def Let_def elite_count_pop_ten pop_ten_fields(1) slice_to_def l s)
qed

section \<open>The invariants of the population\<close>

text \<open>
  C4. The constructor returns a population whose members are sorted by fitness,
  non-decreasing, and a call of \<open>evolve\<close> that returns leaves such a population; in both
  the first member is one of minimal fitness. A call of \<open>evolve\<close> that ends in any way,
  also by an exception, leaves a sorted population sorted.
\<close>

theorem population_sorted:
  "(\<exists>p g'. Population_init sz cr el mu g = Inr (p, g') \<and>
      sorted (map fitness (population p)) \<and>
      (\<forall>c\<in>set (population p). fitness (population p ! 0) \<le> fitness c)) \<and>
   (evolve self g2 = Some (Inr (self', g2')) \<longrightarrow>
      sorted (map fitness (population self')) \<and>
      (\<forall>c\<in>set (population self'). fitness (population self' ! 0) \<le> fitness c)) \<and>
   (evolve self g2 = Some r \<longrightarrow> sorted (map fitness (population self)) \<longrightarrow>
      sorted (map fitness (population (after_evolve self r))))"
proof -
  obtain p g' where p: "Population_init sz cr el mu g = Inr (p, g')"
      "sorted (map fitness (population p))"
    using Population_init_ok [of sz cr el mu g] by blast
  have a: "\<exists>p g'. Population_init sz cr el mu g = Inr (p, g') \<and>
      sorted (map fitness (population p)) \<and>
      (\<forall>c\<in>set (population p). fitness (population p ! 0) \<le> fitness c)"
    using p sorted_head_min [OF p(2)] by blast
  have b: "sorted (map fitness (population s'))" if "evolve self g2 = Some (Inr (s', h))" for s' h
    using evolve_returns [OF that] by auto
  have c: "sorted (map fitness (population (after_evolve self r)))"
    if "evolve self g2 = Some r" "sorted (map fitness (population self))"
  proof (cases r)
    case (Inl e)
    with that(2) show ?thesis by (simp add: after_evolve_def)
  next
    case (Inr st)
    obtain s' h where st: "st = (s', h)" by (cases st) auto
    with Inr that(1) b [of s' h] show ?thesis by (simp add: after_evolve_def)
  qed
  show ?thesis using a b c sorted_head_min by blast
qed

theorem population_sorted_witness:
  "evolve pop_three draws_cross =
     Some (Inr (pop_three\<lparr>population := [Chromosome ''Hello, world!'', Chromosome ''Jello, world!'',
                                         Chromosome ''Jello, world?'']\<rparr>, draws_half)) \<and>
   map fitness (population pop_three) = [2, 30, 62] \<and>
   map fitness [Chromosome ''Hello, world!'', Chromosome ''Jello, world!'',
                Chromosome ''Jello, world?''] = [0, 2, 32] \<and>
   sorted (map fitness [Chromosome ''Hello, world!'', Chromosome ''Jello, world!'',
                        Chromosome ''Jello, world?''])"
  using population_sorted [of 0 0 0 0 draws_half pop_three draws_cross
      "pop_three\<lparr>population := [Chromosome ''Hello, world!'', Chromosome ''Jello, world!'',
                                         Chromosome ''Jello, world?'']\<rparr>"
      draws_half "Inl ValueError"]
    evolve_pop_three
  by (simp add: pop_three_fields fitness_values)

text \<open>
  C5. A call of \<open>evolve\<close> that ends, by returning or by an exception, leaves a population
  with as many members as before, whatever that number is.
\<close>

theorem evolve_preserves_length:
  assumes "evolve self g = Some r"
  shows "length (population (after_evolve self r)) = length (population self)"
  using assms by (rule evolve_length)

theorem evolve_preserves_length_witness:
  "evolve pop_three draws_cross =
     Some (Inr (pop_three\<lparr>population := [Chromosome ''Hello, world!'', Chromosome ''Jello, world!'',
                                         Chromosome ''Jello, world?'']\<rparr>, draws_half)) \<and>
   length (population pop_three) = 3 \<and>
   length (population (after_evolve pop_three
     (Inr (pop_three\<lparr>population := [Chromosome ''Hello, world!'', Chromosome ''Jello, world!'',
                                    Chromosome ''Jello, world?'']\<rparr>, draws_half)))) = 3"
  using evolve_preserves_length [OF evolve_pop_three] evolve_pop_three
  by (simp add: pop_three_fields)

text \<open>
  C6. The elite count \<open>k\<close> is \<open>round(size * elitismRate)\<close> as the code computes it, on
  the double product. The buffer of a call of \<open>evolve\<close> starts as the slice \<open>[0:k]\<close> of
  the members, and the new members are the first \<open>size\<close> entries of that slice followed
  by what the loop appended, sorted. So the first \<open>k\<close> members before a call that
  returns are among the members after it, each as often as it was among the \<open>k\<close>: the
  same chromosomes, hence the same genes. (For a negative \<open>k\<close> the elite is empty; for
  \<open>k\<close> above the size it is the whole population.) With ten members and an elitism
  of 0.95 the double product is 9.5 and \<open>k\<close> is 10.
\<close>

theorem evolve_keeps_elite:
  assumes "evolve self g = Some (Inr (self', g'))"
  shows "\<exists>k. elite_count self = Inr k \<and>
           k = py_round (double_round
                 (double_round (real_of_int (int (length (population self)))) * elitism self)) \<and>
           (\<exists>ys. population self' =
              sort_key fitness
                (slice_to (slice_to (population self) k @ ys)
                   (int (length (population self))))) \<and>
           mset (take (nat k) (population self)) \<subseteq># mset (population self') \<and>
           mset (map gene (take (nat k) (population self))) \<subseteq>#
             mset (map gene (population self'))"
proof -
  from evolve_elite [OF assms] obtain k ys where k: "elite_count self = Inr k"
    and p: "population self' =
              sort_key fitness
                (slice_to (slice_to (population self) k @ ys) (int (length (population self))))"
    and sub: "mset (take (nat k) (population self)) \<subseteq># mset (population self')"
    by blast
  from image_mset_subseteq_mono [OF sub, of gene]
  have "mset (map gene (take (nat k) (population self))) \<subseteq># mset (map gene (population self'))"
    by simp
  moreover from k
  have "k = py_round (double_round
              (double_round (real_of_int (int (length (population self)))) * elitism self))"
    by (auto simp add: elite_count_def Let_def split: if_splits)
  ultimately show ?thesis using k p sub by blast
qed

theorem evolve_keeps_elite_witness:
  "evolve pop_three draws_cross =
     Some (Inr (pop_three\<lparr>population := [Chromosome ''Hello, world!'', Chromosome ''Jello, world!'',
                                         Chromosome ''Jello, world?'']\<rparr>, draws_half)) \<and>
   0 < elitism pop_three \<and> elitism pop_three < 1 \<and> elite_count pop_three = Inr 1 \<and>
   take 1 (population pop_three) = [Chromosome ''Jello, world!''] \<and>
   mset [Chromosome ''Jello, world!''] \<subseteq>#
     mset [Chromosome ''Hello, world!'', Chromosome ''Jello, world!'', Chromosome ''Jello, world?''] \<and>
   mset [''Jello, world!''] \<subseteq># mset [''Hello, world!'', ''Jello, world!'', ''Jello, world?''] \<and>
   evolve pop_ten draws_half = Some (Inr (pop_ten, draws_half)) \<and>
   elite_count pop_ten = Inr 10 \<and>
   py_round (double_round (double_round 10 * elitism pop_ten)) = 10 \<and>
   mset (take 10 (population pop_ten)) \<subseteq># mset (population pop_ten)"
  using evolve_keeps_elite [OF evolve_pop_three] evolve_pop_three
    evolve_keeps_elite [OF evolve_pop_ten [of draws_half]] evolve_pop_ten [of draws_half]
  by (simp add: pop_three_fields(1) pop_three_elitism elite_count_pop_three
      elite_count_pop_ten pop_ten_fields(1))

section \<open>The path without crossover\<close>

lemma non_crossover_path_idx:
  assumes "non_crossover_path self buf idx g = Inr (buf', idx', g')"
  shows "idx' = idx \<and> length buf' = Suc (length buf)"
  using assms
  by (auto simp add: non_crossover_path_def split: prod.splits sum.splits if_splits)

lemma pop_one_fields:
  "population pop_one = [Chromosome ''Hello, world?'']"
  "elitism pop_one = double_round (1 / 10)"
  "mutation pop_one = 1080863910568919 / 36028797018963968"
  "crossover pop_one = 3602879701896397 / 4503599627370496"
  by (simp_all add: pop_one_def double_rates)

text \<open>
  C1 fails on the code. Population of one member, default rates, the fill index at the
  elite count 0, every draw \<open>1 - 2^-53\<close>: the crossover test fails, the member at
  position 0 is appended unmutated, and the index that the path hands back is 0, not 1.
\<close>

theorem non_crossover_path_keeps_idx:
  "elite_count pop_one = Inr 0 \<and>
   non_crossover_path pop_one [] 0 draws_top = Inr ([Chromosome ''Hello, world?''], 0, draws_top) \<and>
   evolve_body pop_one [] 0 draws_top = Inr ([Chromosome ''Hello, world?''], 0, draws_top)"
proof -
  have k: "elite_count pop_one = Inr 0" by (rule elite_count_pop_one)
  have n: "non_crossover_path pop_one [] 0 draws_top =
             Inr ([Chromosome ''Hello, world?''], 0, draws_top)"
    by (simp add: non_crossover_path_def random_py_top pop_one_fields getitem_def)
  have "evolve_body pop_one [] 0 draws_top = non_crossover_path pop_one [] 0 draws_top"
    by (simp add: evolve_body_def random_py_top pop_one_fields)
  with k n show ?thesis by simp
qed

section \<open>When the crossover test never succeeds\<close>

lemma non_crossover_step:
  assumes genes: "\<forall>c\<in>set (population self). gene c \<noteq> []"
    and fails: "crossover self < fst (random_py g)"
    and lo: "- int (length (population self)) \<le> idx"
    and hi: "idx < int (length (population self))"
  shows "\<exists>buf'. evolve_body self buf idx g = Inr (buf', idx, pass_rng self g)"
proof -
  from fails have "\<not> fst (random_py g) \<le> crossover self" by simp
  then have b: "evolve_body self buf idx g = non_crossover_path self buf idx (stl g)"
    by (simp add: evolve_body_def random_py_def)
  obtain c where c: "c \<in> set (population self)" "getitem (population self) idx = Inr c"
    using getitem_ok [OF lo hi] by blast
  obtain c' where c': "mutate c (stl (stl g)) = Inr (c', stl (stl (stl (stl g))))"
    using mutate_returns [of c "stl (stl g)"] genes c(1) by blast
  show ?thesis
  proof (cases "fst (random_py (stl g)) \<le> mutation self")
    case True
    then have "non_crossover_path self buf idx (stl g) =
        Inr (buf @ [c'], idx, stl (stl (stl (stl g))))"
      using c c' by (simp add: non_crossover_path_def random_py_def)
    with b True show ?thesis by (simp add: pass_rng_def)
  next
    case False
    then have "non_crossover_path self buf idx (stl g) = Inr (buf @ [c], idx, stl (stl g))"
      using c by (simp add: non_crossover_path_def random_py_def)
    with b False show ?thesis by (simp add: pass_rng_def)
  qed
qed

lemma evolve_loop_diverges:
  assumes genes: "\<forall>c\<in>set (population self). gene c \<noteq> []"
    and never: "\<forall>n. crossover self < fst (random_py ((pass_rng self ^^ n) g))"
    and lo: "- int (length (population self)) \<le> idx"
    and hi: "idx < int (length (population self))"
  shows "evolve_loop self (int (length (population self))) buf idx g = None"
proof (rule ccontr)
  assume "evolve_loop self (int (length (population self))) buf idx g \<noteq> None"
  then obtain y where y: "evolve_loop self (int (length (population self))) buf idx g = Some y"
    by auto
  let ?I = "\<lambda>self sz idx g. sz = int (length (population self)) \<and>
      (\<forall>c\<in>set (population self). gene c \<noteq> []) \<and>
      (\<forall>n. crossover self < fst (random_py ((pass_rng self ^^ n) g))) \<and>
      - int (length (population self)) \<le> idx \<and> idx < int (length (population self))"
  let ?P = "\<lambda>self sz (buf::chromosome list) idx g (y::error + chromosome list \<times> rng).
      \<not> ?I self sz idx g"
  have "?P self (int (length (population self))) buf idx g y"
  proof (rule evolve_loop.raw_induct [where P = ?P, OF _ y], goal_cases)
    case (1 loop self sz buf idx g y)
    show ?case
    proof
      assume I: "?I self sz idx g"
      then have n: "\<forall>n. crossover self < fst (random_py ((pass_rng self ^^ n) g))" by blast
      from n have "crossover self < fst (random_py ((pass_rng self ^^ 0) g))" by (rule spec)
      then have f: "crossover self < fst (random_py g)" by simp
      from I f obtain buf' where step: "evolve_body self buf idx g = Inr (buf', idx, pass_rng self g)"
        using non_crossover_step [of self g idx buf] by blast
      from I step 1(2) have "loop self sz buf' idx (pass_rng self g) = Some y" by simp
      from 1(1) [OF this] have "\<not> ?I self sz idx (pass_rng self g)" .
      moreover have "\<forall>n. crossover self < fst (random_py ((pass_rng self ^^ n) (pass_rng self g)))"
      proof
        fix m
        from n have "crossover self < fst (random_py ((pass_rng self ^^ Suc m) g))" by (rule spec)
        then show "crossover self < fst (random_py ((pass_rng self ^^ m) (pass_rng self g)))"
          by (simp only: funpow_Suc_right o_apply)
      qed
      with I have "?I self sz idx (pass_rng self g)" by blast
      ultimately show False by blast
    qed
  qed
  with assms show False by blast
qed

lemma evolve_index_error:
  assumes k: "elite_count self = Inr k"
    and below: "k < - int (length (population self))"
    and fails: "crossover self < fst (random_py g)"
  shows "evolve self g = Some (Inl IndexError)"
proof -
  from below have i: "getitem (population self) k = Inl IndexError"
    by (simp add: getitem_def Let_def)
  from fails have "\<not> fst (random_py g) \<le> crossover self" by simp
  then have "evolve_body self buf k g = non_crossover_path self buf k (stl g)" for buf
    by (simp add: evolve_body_def random_py_def)
  then have b: "evolve_body self buf k g = Inl IndexError" for buf
    using i by (simp add: non_crossover_path_def random_py_def)
  from below have "k < int (length (population self))" by linarith
  then have "evolve_loop self (int (length (population self))) buf k g = Some (Inl IndexError)"
    for buf
    by (subst evolve_loop.simps) (simp add: b)
  then show ?thesis using k by (simp add: evolve_def Let_def)
qed

lemma sset_pass_rng: "sset ((pass_rng self ^^ n) g) \<subseteq> sset g"
proof (induction n)
  case 0
  show ?case by simp
next
  case (Suc n)
  let ?h = "(pass_rng self ^^ n) g"
  have "sset (pass_rng self ?h) \<subseteq> sset ?h"
    using sset_sdrop [of 4 ?h] sset_sdrop [of 2 ?h]
    by (simp add: pass_rng_def numeral_2_eq_2 numeral_Bit0 del: sdrop_simps(2))
  with Suc show ?case by auto
qed

lemma every_draw_never:
  assumes "\<forall>k\<in>sset g. crossover self < draw_value k"
  shows "crossover self < fst (random_py ((pass_rng self ^^ n) g))"
proof -
  have "shd ((pass_rng self ^^ n) g) \<in> sset ((pass_rng self ^^ n) g)" by (rule shd_sset)
  moreover have "sset ((pass_rng self ^^ n) g) \<subseteq> sset g" by (rule sset_pass_rng)
  ultimately have "shd ((pass_rng self ^^ n) g) \<in> sset g" by blast
  with assms show ?thesis by (simp add: random_py_def)
qed

lemma negative_crossover_never:
  assumes "crossover self < 0"
  shows "crossover self < fst (random_py g)"
  using assms random_py_range [of g] by linarith

lemma evolve_body_idx:
  assumes "evolve_body self buf idx g = Inr (buf', idx', g')"
  shows "idx' = (if fst (random_py g) \<le> crossover self then idx + 2 else idx)"
  using assms
  by (auto simp add: evolve_body_def crossover_path_def non_crossover_path_def
      split: prod.splits sum.splits if_splits)

lemma pop_three_nocross_fields:
  "population pop_three_nocross = [Chromosome ''Jello, world!'', Chromosome ''Hello, world?'',
                                   Chromosome ''Hello, World?'']"
  "elitism pop_three_nocross = double_round (1 / 3)"
  "mutation pop_three_nocross = 1080863910568919 / 36028797018963968"
  "crossover pop_three_nocross = - 1"
  by (simp_all add: pop_three_nocross_def double_rates)

lemma pop_three_quarter_fields:
  "population pop_three_quarter = [Chromosome ''Jello, world!'', Chromosome ''Hello, world?'',
                                   Chromosome ''Hello, World?'']"
  "elitism pop_three_quarter = double_round (1 / 3)"
  "mutation pop_three_quarter = 1080863910568919 / 36028797018963968"
  "crossover pop_three_quarter = 1 / 4"
  by (simp_all add: pop_three_quarter_def double_rates)

lemma pass_rng_draws_half: "pass_rng pop_three_nocross draws_half = draws_half"
  by (simp add: pass_rng_def stl_draws random_py_half pop_three_nocross_fields)

lemma random_py_cycle:
  "random_py draws_cycle = (1 / 2, cycle [0, 0, 0, raw_half])"
  "random_py (cycle [0, 0, 0, raw_half]) = (0, cycle [0, 0, raw_half, 0])"
  by (simp_all add: random_py_def draws_cycle_def draw_values)

lemma draws_cycle_fold: "cycle [raw_half, 0, 0, 0] = draws_cycle"
  by (simp add: draws_cycle_def)

lemma stl_draws_cycle: "stl draws_cycle = cycle [0, 0, 0, raw_half]"
  by (simp add: draws_cycle_def)

lemma pass_rng_draws_cycle: "pass_rng pop_three_quarter draws_cycle = draws_cycle"
  by (simp add: pass_rng_def stl_draws_cycle random_py_cycle(2) draws_cycle_fold
      pop_three_quarter_fields)

lemma funpow_fixed:
  assumes "f x = x"
  shows "(f ^^ n) x = x"
  using assms by (induction n) simp_all

lemma pop_one_negative_fields:
  "population pop_one_negative = [Chromosome ''Hello, world?'']"
  "elitism pop_one_negative = - 3"
  "mutation pop_one_negative = 1080863910568919 / 36028797018963968"
  "crossover pop_one_negative = - 1"
  by (simp_all add: pop_one_negative_def double_rates)

text \<open>
  C10, as the code has it. A pass through the body of the loop moves the fill index by
  2 when its first draw passes the crossover test and leaves it where it is otherwise.
  On a population whose members' genes are not empty (as those of every constructed
  population) and with the fill index \<open>idx\<close> in \<open>-size \<le> idx < size\<close>, a pass whose
  crossover test fails returns and leaves the source \<open>pass_rng self g\<close>. So when the
  crossover test never succeeds, that is, when the first draw of each of \<open>g\<close>,
  \<open>pass_rng self g\<close>, \<open>pass_rng self (pass_rng self g)\<close>, ... exceeds the crossover
  rate, and the elite count \<open>k\<close> satisfies \<open>-size \<le> k < size\<close>, the call of \<open>evolve\<close>
  neither returns nor raises: the loop runs forever. With an elite count \<open>k < -size\<close>
  and a first crossover test that fails, the call ends with \<open>IndexError\<close>. The
  crossover test never succeeds when every draw of the source exceeds the crossover
  rate, and so when the crossover rate is negative.
\<close>

theorem evolve_never_returns:
  "(evolve_body self buf idx g = Inr (buf', idx', g') \<longrightarrow>
      idx' = (if fst (random_py g) \<le> crossover self then idx + 2 else idx)) \<and>
   ((\<forall>c\<in>set (population self). gene c \<noteq> []) \<longrightarrow>
    - int (length (population self)) \<le> idx \<longrightarrow> idx < int (length (population self)) \<longrightarrow>
    crossover self < fst (random_py g) \<longrightarrow>
    (\<exists>buf1. evolve_body self buf idx g = Inr (buf1, idx, pass_rng self g))) \<and>
   ((\<forall>c\<in>set (population self). gene c \<noteq> []) \<longrightarrow>
    elite_count self = Inr k \<longrightarrow>
    - int (length (population self)) \<le> k \<longrightarrow> k < int (length (population self)) \<longrightarrow>
    (\<forall>n. crossover self < fst (random_py ((pass_rng self ^^ n) g))) \<longrightarrow>
    evolve self g = None) \<and>
   (elite_count self = Inr k \<longrightarrow> k < - int (length (population self)) \<longrightarrow>
    crossover self < fst (random_py g) \<longrightarrow>
    evolve self g = Some (Inl IndexError)) \<and>
   ((\<forall>d\<in>sset g. crossover self < draw_value d) \<longrightarrow>
    (\<forall>n. crossover self < fst (random_py ((pass_rng self ^^ n) g)))) \<and>
   (crossover self < 0 \<longrightarrow>
    (\<forall>n. crossover self < fst (random_py ((pass_rng self ^^ n) g))))"
proof (intro conjI impI allI)
  assume "evolve_body self buf idx g = Inr (buf', idx', g')"
  then show "idx' = (if fst (random_py g) \<le> crossover self then idx + 2 else idx)"
    by (rule evolve_body_idx)
next
  assume "\<forall>c\<in>set (population self). gene c \<noteq> []"
    and "- int (length (population self)) \<le> idx" and "idx < int (length (population self))"
    and "crossover self < fst (random_py g)"
  then show "\<exists>buf1. evolve_body self buf idx g = Inr (buf1, idx, pass_rng self g)"
    using non_crossover_step [of self g idx buf] by blast
next
  assume genes: "\<forall>c\<in>set (population self). gene c \<noteq> []"
    and k: "elite_count self = Inr k"
    and lo: "- int (length (population self)) \<le> k"
    and hi: "k < int (length (population self))"
    and never: "\<forall>n. crossover self < fst (random_py ((pass_rng self ^^ n) g))"
  from genes never lo hi
  have "evolve_loop self (int (length (population self))) (slice_to (population self) k) k g = None"
    by (rule evolve_loop_diverges)
  then show "evolve self g = None" using k by (simp add: evolve_def Let_def)
next
  assume "elite_count self = Inr k" and "k < - int (length (population self))"
    and "crossover self < fst (random_py g)"
  then show "evolve self g = Some (Inl IndexError)" by (rule evolve_index_error)
next
  fix n
  assume "\<forall>d\<in>sset g. crossover self < draw_value d"
  then show "crossover self < fst (random_py ((pass_rng self ^^ n) g))"
    by (rule every_draw_never)
next
  fix n
  assume "crossover self < 0"
  then show "crossover self < fst (random_py ((pass_rng self ^^ n) g))"
    by (rule negative_crossover_never)
qed

text \<open>
  Two runs on the population of three with an elite of one. With a crossover rate of
  -1 and every draw \<open>1/2\<close>, each pass takes two draws. With a crossover rate of \<open>1/4\<close>
  and the draws \<open>1/2, 0, 0, 0\<close> repeated, each pass takes four draws, the first for the
  crossover test, which fails, the second for the mutation test, which passes, and two
  for \<open>mutate\<close>, which turns \<open>Hello, world?\<close> into \<open>hello, world?\<close>: here not every
  draw of the source exceeds the crossover rate, and the crossover test never
  succeeds. With one member and an elite count of -3 the first pass raises. With ten
  members and an elite count of ten the loop is not entered and the call returns.
\<close>

theorem evolve_never_returns_witness:
  "crossover pop_three_nocross < 0 \<and> elite_count pop_three_nocross = Inr 1 \<and>
   length (population pop_three_nocross) = 3 \<and>
   pass_rng pop_three_nocross draws_half = draws_half \<and>
   fst (random_py draws_half) = 1 / 2 \<and>
   evolve pop_three_nocross draws_half = None \<and>
   crossover pop_three_quarter = 1 / 4 \<and> elite_count pop_three_quarter = Inr 1 \<and>
   length (population pop_three_quarter) = 3 \<and>
   pass_rng pop_three_quarter draws_cycle = draws_cycle \<and>
   fst (random_py draws_cycle) = 1 / 2 \<and>
   fst (random_py (stl draws_cycle)) = 0 \<and>
   evolve_body pop_three_quarter [] 1 draws_cycle =
     Inr ([Chromosome ''hello, world?''], 1, draws_cycle) \<and>
   evolve pop_three_quarter draws_cycle = None \<and>
   elite_count pop_one_negative = Inr (- 3) \<and> length (population pop_one_negative) = 1 \<and>
   crossover pop_one_negative = - 1 \<and>
   evolve pop_one_negative draws_half = Some (Inl IndexError) \<and>
   crossover pop_ten < 0 \<and> elite_count pop_ten = Inr 10 \<and>
   length (population pop_ten) = 10 \<and>
   evolve pop_ten draws_half = Some (Inr (pop_ten, draws_half))"
proof -
  have g1: "\<forall>c\<in>set (population pop_three_nocross). gene c \<noteq> []"
    by (simp add: pop_three_nocross_fields)
  have n1: "\<forall>n. crossover pop_three_nocross <
      fst (random_py ((pass_rng pop_three_nocross ^^ n) draws_half))"
    by (simp add: funpow_fixed [of "pass_rng pop_three_nocross" draws_half,
          OF pass_rng_draws_half] random_py_half pop_three_nocross_fields)
  have b1: "- int (length (population pop_three_nocross)) \<le> 1"
      "1 < int (length (population pop_three_nocross))"
    by (simp_all add: pop_three_nocross_fields)
  have e1: "evolve pop_three_nocross draws_half = None"
    using g1 n1 b1 elite_count_pop_three_nocross
      evolve_never_returns [of pop_three_nocross _ _ draws_half _ _ _ 1]
    by blast
  have g2: "\<forall>c\<in>set (population pop_three_quarter). gene c \<noteq> []"
    by (simp add: pop_three_quarter_fields)
  have n2: "\<forall>n. crossover pop_three_quarter <
      fst (random_py ((pass_rng pop_three_quarter ^^ n) draws_cycle))"
    by (simp add: funpow_fixed [of "pass_rng pop_three_quarter" draws_cycle,
          OF pass_rng_draws_cycle] random_py_cycle pop_three_quarter_fields)
  have b2: "- int (length (population pop_three_quarter)) \<le> 1"
      "1 < int (length (population pop_three_quarter))"
    by (simp_all add: pop_three_quarter_fields)
  have e2: "evolve pop_three_quarter draws_cycle = None"
    using g2 n2 b2 elite_count_pop_three_quarter
      evolve_never_returns [of pop_three_quarter _ _ draws_cycle _ _ _ 1]
    by blast
  have m: "mutate (Chromosome ''Hello, world?'') (cycle [0, 0, raw_half, 0]) =
      Inr (Chromosome ''hello, world?'', draws_cycle)"
    by (simp add: mutate_def randint_def random_py_def draw_values draws_cycle_fold
        setitem_def getitem_def Let_def ord_def chr_def char_of_def)
  have b: "evolve_body pop_three_quarter [] 1 draws_cycle =
      Inr ([Chromosome ''hello, world?''], 1, draws_cycle)"
    by (simp add: evolve_body_def non_crossover_path_def random_py_cycle
        pop_three_quarter_fields getitem_def m)
  have b3: "- 3 < - int (length (population pop_one_negative))"
      "crossover pop_one_negative < fst (random_py draws_half)"
    by (simp_all add: pop_one_negative_fields random_py_half)
  have e3: "evolve pop_one_negative draws_half = Some (Inl IndexError)"
    using b3 elite_count_pop_one_negative
      evolve_never_returns [of pop_one_negative _ _ draws_half _ _ _ "- 3"]
    by blast
  from e1 e2 e3 b show ?thesis
    by (simp add: pop_three_nocross_fields pop_three_quarter_fields
        pop_one_negative_fields elite_count_pop_one_negative
        elite_count_pop_three_nocross elite_count_pop_three_quarter
        pass_rng_draws_half pass_rng_draws_cycle random_py_half random_py_cycle
        stl_draws_cycle pop_ten_fields elite_count_pop_ten evolve_pop_ten)
qed

text \<open>
  The claim C10 as stated fails where the elite count is below \<open>-size\<close>: one member, an
  elitism rate of -3 and a crossover rate of -1. The size 1 exceeds the elite count -3
  and no draw passes the crossover test, but the first pass through the loop reads
  \<open>self._population[-3]\<close> and the call ends with \<open>IndexError\<close>.
\<close>

theorem evolve_raises_counterexample:
  "elite_count pop_one_negative = Inr (- 3) \<and>
   (- 3 :: int) < int (length (population pop_one_negative)) \<and>
   crossover pop_one_negative < 0 \<and>
   evolve pop_one_negative draws_half = Some (Inl IndexError)"
proof -
  have k: "elite_count pop_one_negative = Inr (- 3)" by (rule elite_count_pop_one_negative)
  have b: "evolve_body pop_one_negative [] (- 3) draws_half = Inl IndexError"
    by (simp add: evolve_body_def non_crossover_path_def random_py_half
        pop_one_negative_fields getitem_def)
  have l: "evolve_loop pop_one_negative 1 [] (- 3) draws_half = Some (Inl IndexError)"
    by (subst evolve_loop.simps) (simp add: b)
  have "evolve pop_one_negative draws_half = Some (Inl IndexError)"
    using l by (simp add: evolve_def Let_def k pop_one_negative_fields slice_to_def)
  with k show ?thesis by (simp add: pop_one_negative_fields)
qed

section \<open>The accessor returns a copy\<close>

text \<open>
  C9. Let the population's list object be allocated at \<open>ref\<close>, and let the accessor
  return the address \<open>a\<close>. Then \<open>a\<close> is another object than the population's, with the
  same contents; whatever contents \<open>xs\<close> an update in place gives the returned object,
  the population's own object is as before, and the accessor read again returns an
  object with the unaltered contents.
\<close>

theorem population_defensive_copy:
  assumes "ref < length h" and "population_property h ref = (a, h')"
  shows "a \<noteq> ref \<and> h' ! a = h ! ref \<and> h' ! ref = h ! ref \<and>
         (h'[a := xs]) ! a = xs \<and> (h'[a := xs]) ! ref = h ! ref \<and>
         (\<exists>a2 h2. population_property (h'[a := xs]) ref = (a2, h2) \<and> h2 ! a2 = h ! ref)"
  using assms
  by (auto simp add: population_property_def alloc_def slice_from_def nth_append)

theorem population_defensive_copy_witness:
  "(0::nat) < length [population pop_three] \<and>
   population_property [population pop_three] 0 =
     (1, [population pop_three, population pop_three]) \<and>
   ([population pop_three, population pop_three][1 := []]) ! 0 = population pop_three \<and>
   population_property ([population pop_three, population pop_three][1 := []]) 0 =
     (2, [population pop_three, [], population pop_three])"
proof -
  have r: "(0::nat) < length [population pop_three]" by simp
  have p: "population_property [population pop_three] 0 =
     (1, [population pop_three, population pop_three])"
    by (simp add: population_property_def alloc_def slice_from_def)
  from population_defensive_copy [OF r p, of "[]"] r p show ?thesis
    by (simp add: population_property_def alloc_def slice_from_def)
qed

end
